theory Spec2Isabelle
  imports Main
begin

section \<open>ThreadlessWeb: a shallow embedding of threadlessweb.c\<close>

text \<open>
  The embedding follows \<^verbatim>\<open>threadlessweb.c\<close> and \<^verbatim>\<open>threadlessweb.h\<close> function by
  function. C bytes are \<^typ>\<open>char\<close> (8 bits), a C array or heap block is the list of its
  bytes, a pointer that may be \<^verbatim>\<open>NULL\<close> is an \<^typ>\<open>'a option\<close>, and the C integers
  involved stay far below their limits (lengths up to \<^verbatim>\<open>BUFSIZE\<close>, descriptors up to the
  limit of the process), so they are \<^typ>\<open>int\<close> and \<^typ>\<open>nat\<close>. Calls of \<^verbatim>\<open>LOG\<close> only write to the system log and are
  left out.
\<close>

subsection \<open>The C library functions the server uses\<close>

definition NUL :: char where "NUL = CHR 0x00"
definition CR :: char where "CR = CHR 0x0D"
definition LF :: char where "LF = CHR 0x0A"

text \<open>A string literal occupies its characters and a terminating zero byte.\<close>

definition c_literal :: "string \<Rightarrow> char list" where
  "c_literal s = s @ [NUL]"

definition c_sizeof :: "string \<Rightarrow> nat" where
  "c_sizeof s = length (c_literal s)"

text \<open>
  \<^verbatim>\<open>*s\<close> for a string held in a list: past the stored bytes of a literal comes its
  terminating zero.
\<close>

fun c_deref :: "char list \<Rightarrow> char" where
  "c_deref [] = NUL"
| "c_deref (c # cs) = c"

definition strlen :: "char list \<Rightarrow> nat" where
  "strlen s = length (takeWhile (\<lambda>c. c \<noteq> NUL) s)"

text \<open>\<^verbatim>\<open>tolower\<close> in the C locale (the program never calls \<^verbatim>\<open>setlocale\<close>).\<close>

definition c_tolower :: "char \<Rightarrow> char" where
  "c_tolower c =
     (case map_of (zip ''ABCDEFGHIJKLMNOPQRSTUVWXYZ'' ''abcdefghijklmnopqrstuvwxyz'') c of
        None \<Rightarrow> c
      | Some l \<Rightarrow> l)"

text \<open>
  \<^verbatim>\<open>strncasecmp(s1, s2, n)\<close>: compares at most \<open>n\<close> bytes, ignoring case, and stops at
  the first difference or at a common terminating zero.
\<close>

fun strncasecmp :: "char list \<Rightarrow> char list \<Rightarrow> nat \<Rightarrow> int" where
  "strncasecmp s1 s2 0 = 0"
| "strncasecmp s1 s2 (Suc n) =
     (let c1 = c_tolower (c_deref s1); c2 = c_tolower (c_deref s2)
      in if c1 \<noteq> c2 then int (of_char c1) - int (of_char c2)
         else if c1 = NUL then 0
         else strncasecmp (tl s1) (tl s2) n)"

text \<open>\<^verbatim>\<open>%d\<close> and \<^verbatim>\<open>%ld\<close> of a number that is not negative.\<close>

definition digit :: "nat \<Rightarrow> char" where
  "digit d = ''0123456789'' ! d"

function decimal :: "nat \<Rightarrow> string" where
  "decimal n = (if n < 10 then [digit n] else decimal (n div 10) @ [digit (n mod 10)])"
  by pat_completeness auto
termination
  by (relation "measure (\<lambda>n. n)") auto

declare decimal.simps [simp del]

subsection \<open>Constants of threadlessweb.c and threadlessweb.h\<close>

definition BUFSIZE :: nat where "BUFSIZE = 8096"

definition VERSION :: nat where "VERSION = 23"
definition RESPONSE_ERROR :: int where "RESPONSE_ERROR = 42"
definition RESPONSE_FORBIDDEN :: int where "RESPONSE_FORBIDDEN = 403"

definition RESPONSE_CONTENT :: string where
  "RESPONSE_CONTENT = ''Okay'' @ [LF]"

definition RESPONSE_TYPE :: string where
  "RESPONSE_TYPE = ''text/html''"

definition RESPONSE_LENGTH :: nat where
  "RESPONSE_LENGTH = c_sizeof RESPONSE_CONTENT"

definition FORBIDDEN_TEXT :: string where
  "FORBIDDEN_TEXT =
     ''HTTP/1.1 403 Forbidden'' @ [LF] @ ''Content-Length: 185'' @ [LF] @
     ''Connection: close'' @ [LF] @ ''Content-Type: text/html'' @ [LF] @ [LF] @
     ''<html><head>'' @ [LF] @ ''<title>403 Forbidden</title>'' @ [LF] @
     ''</head><body>'' @ [LF] @ ''<h1>Forbidden</h1>'' @ [LF] @
     ''The requested URL, file type or operation is not allowed on this simple static file webserver.'' @ [LF] @
     ''</body></html>'' @ [LF]"

definition FORBIDDEN_TEXT_LENGTH :: nat where
  "FORBIDDEN_TEXT_LENGTH = c_sizeof FORBIDDEN_TEXT"

text \<open>The enum \<^verbatim>\<open>REQUEST\<close>; a field of that type also receives \<^verbatim>\<open>RESPONSE_ERROR\<close>.\<close>

definition REQUEST_INVALID :: int where "REQUEST_INVALID = - 1"
definition REQUEST_GET :: int where "REQUEST_GET = 0"
definition REQUEST_POST :: int where "REQUEST_POST = 1"
definition REQUEST_NUM :: int where "REQUEST_NUM = 2"

definition requests :: "string list" where
  "requests = [''GET '', ''POST '']"

text \<open>
  \<^verbatim>\<open>FD_SETSIZE\<close> comes from the platform's \<^verbatim>\<open>sys/select.h\<close>; the value is the one of
  Linux, for which the makefile builds. The general theorems below hold for any value; the
  examples need it to exceed the descriptors 3, 4 and 5, and one of them uses the first
  descriptor that \<^verbatim>\<open>accept\<close> can return beyond it.
\<close>

definition FD_SETSIZE :: nat where "FD_SETSIZE = 1024"

subsection \<open>The data model\<close>

record WebserveConv =
  hit :: int
  type :: int
  request_header :: "char list option"
  request_header_size :: nat
  request_body :: "char list option"
  request_body_size :: nat
  response_code :: int
  response :: "char list option"
  response_size :: nat

text \<open>A callback works on the conversation it is given and returns a flag.\<close>

type_synonym WebservConvCallback = "WebserveConv \<Rightarrow> WebserveConv \<times> bool"

text \<open>
  \<^verbatim>\<open>struct _Webserve\<close>. Its field \<^verbatim>\<open>hit\<close> is \<open>hits\<close> here, as a record field of
  that name exists already. An \<^verbatim>\<open>fd_set\<close> is the set of the descriptors in it, and the
  array of conversation pointers is a map from descriptors.
\<close>

record Webserve =
  listenfd :: int
  hits :: int
  active_read_fd_set :: "int set"
  active_write_fd_set :: "int set"
  timeout_usec :: nat
  conversation_callback :: "WebservConvCallback option"
  conversation :: "int \<Rightarrow> WebserveConv option"
  quit :: bool

text \<open>
  What the process shares with its operating system: the descriptors that are open, the
  bytes written to each descriptor so far, the static buffer of \<^verbatim>\<open>web_read\<close>, which
  keeps its contents from one call to the next, the conversations that callbacks have been
  called with, in the order of the calls, and the limit of the process on the number of its
  descriptors (\<^verbatim>\<open>RLIMIT_NOFILE\<close>).
\<close>

record world =
  open_fds :: "int set"
  sent :: "int \<Rightarrow> char list"
  buffer :: "char list"
  invoked :: "WebserveConv list"
  nofile :: nat

text \<open>
  What becomes of a \<^verbatim>\<open>write\<close>: the bytes are taken, or only the first few of them,
  or the call returns -1, or the peer is gone and the process receives \<^verbatim>\<open>SIGPIPE\<close>,
  which the library neither handles nor ignores.
\<close>

datatype write_outcome = Written | Written_Part nat | Write_Fails | Sigpipe

text \<open>
  What the operating system decides during one poll cycle: whether \<^verbatim>\<open>select\<close> and
  \<^verbatim>\<open>accept\<close> fail, which descriptors are ready, what \<^verbatim>\<open>read\<close> delivers on each
  descriptor (\<open>None\<close> for an error, otherwise the bytes that are pending), and what
  becomes of a \<^verbatim>\<open>write\<close> on each descriptor.
\<close>

record env =
  select_fails :: bool
  readable :: "int set"
  writable :: "int set"
  accept_fails :: bool
  pending :: "int \<Rightarrow> char list option"
  on_write :: "int \<Rightarrow> write_outcome"

text \<open>
  A call returns, or ends the process through \<^verbatim>\<open>exit\<close> with a status, or the process
  is killed by a signal, or the call has no defined behaviour in C (a null pointer
  dereferenced, a block read past its end, a write outside the server's record).
\<close>

datatype 'a result = Returns world 'a | Exits int world | Killed world | Faults world

text \<open>What follows a call that returns; any other end of the call ends the whole.\<close>

definition and_then :: "'a result \<Rightarrow> (world \<Rightarrow> 'a \<Rightarrow> 'b result) \<Rightarrow> 'b result" where
  "and_then r f =
     (case r of
        Returns w x \<Rightarrow> f w x
      | Exits c w \<Rightarrow> Exits c w
      | Killed w \<Rightarrow> Killed w
      | Faults w \<Rightarrow> Faults w)"

subsection \<open>System calls\<close>

text \<open>
  \<^verbatim>\<open>read(fd, buffer, BUFSIZE)\<close>: at most \<^verbatim>\<open>BUFSIZE\<close> of the pending bytes are stored at
  the start of the buffer, the rest of the buffer keeps its bytes; the result is the number
  of bytes stored, or -1.
\<close>

definition sys_read :: "char list option \<Rightarrow> char list \<Rightarrow> int \<times> char list" where
  "sys_read p buf =
     (case p of
        None \<Rightarrow> (- 1, buf)
      | Some bs \<Rightarrow> (int (length (take BUFSIZE bs)), take BUFSIZE bs @ drop (length (take BUFSIZE bs)) buf))"

text \<open>
  \<^verbatim>\<open>write(fd, bytes, n)\<close>: the bytes that are taken are appended to what the
  descriptor has received and their number is returned.
\<close>

definition delivered :: "int \<Rightarrow> char list \<Rightarrow> world \<Rightarrow> world" where
  "delivered fd bytes w = w\<lparr>sent := (sent w)(fd := sent w fd @ bytes)\<rparr>"

definition sys_write :: "env \<Rightarrow> int \<Rightarrow> char list \<Rightarrow> world \<Rightarrow> int result" where
  "sys_write e fd bytes w =
     (case on_write e fd of
        Written \<Rightarrow> Returns (delivered fd bytes w) (int (length bytes))
      | Written_Part n \<Rightarrow> Returns (delivered fd (take n bytes) w) (int (length (take n bytes)))
      | Write_Fails \<Rightarrow> Returns w (- 1)
      | Sigpipe \<Rightarrow> Killed w)"

definition sys_close :: "int \<Rightarrow> world \<Rightarrow> world" where
  "sys_close fd w = w\<lparr>open_fds := open_fds w - {fd}\<rparr>"

subsection \<open>web_read\<close>

text \<open>Lines 112 to 119: the buffer is terminated after the bytes read, or at its start.\<close>

definition terminate_buffer :: "char list \<Rightarrow> int \<Rightarrow> char list" where
  "terminate_buffer buf ret =
     (if ret > 0 \<and> ret < int BUFSIZE then buf[nat ret := NUL] else buf[0 := NUL])"

text \<open>Lines 121 to 137: the loop that looks for the boundary between header and body.\<close>

function find_boundary :: "char list \<Rightarrow> int \<Rightarrow> int \<Rightarrow> int \<Rightarrow> int \<Rightarrow> int" where
  "find_boundary buf ret boundary retcount i =
     (if boundary = ret \<and> i < ret then
        (if buf ! nat i = CR \<or> buf ! nat i = LF
         then find_boundary buf ret boundary (retcount + 1) (i + 1)
         else if retcount \<ge> 4
         then find_boundary buf ret i retcount (i + 1)
         else find_boundary buf ret boundary 0 (i + 1))
      else boundary)"
  by pat_completeness auto
termination
  by (relation "measure (\<lambda>(buf, ret, boundary, retcount, i). nat (ret - i))") auto

declare find_boundary.simps [simp del]

text \<open>
  Lines 140 to 154: header and body are copied into blocks of their own, each with a
  terminating zero. Allocation is taken to succeed.
\<close>

definition copy_request :: "char list \<Rightarrow> int \<Rightarrow> int \<Rightarrow> WebserveConv \<Rightarrow> WebserveConv" where
  "copy_request buf ret boundary c =
     c\<lparr>request_header := Some (take (nat boundary) buf @ [NUL]),
       request_header_size := nat boundary,
       request_body := Some (take (nat (ret - boundary)) (drop (nat boundary) buf) @ [NUL]),
       request_body_size := nat (ret - boundary)\<rparr>"

definition frame_request :: "char list \<Rightarrow> int \<Rightarrow> WebserveConv \<Rightarrow> WebserveConv" where
  "frame_request buf ret c = copy_request buf ret (find_boundary buf ret ret 0 0) c"

text \<open>Lines 157 to 161: carriage returns and line feeds among the bytes read become stars.\<close>

definition star_crlf :: "char \<Rightarrow> char" where
  "star_crlf c = (if c = CR \<or> c = LF then CHR ''*'' else c)"

definition remove_crlf :: "char list \<Rightarrow> int \<Rightarrow> char list" where
  "remove_crlf buf ret = map star_crlf (take (nat ret) buf) @ drop (nat ret) buf"

text \<open>Lines 165 to 173: the first entry of \<open>requests\<close> that the buffer starts with.\<close>

function classify_from :: "char list \<Rightarrow> int \<Rightarrow> int \<Rightarrow> nat \<Rightarrow> int \<times> nat" where
  "classify_from buf request ty prefixsize =
     (if request < REQUEST_NUM \<and> ty = REQUEST_INVALID then
        (if strncasecmp buf (requests ! nat request) (strlen (requests ! nat request)) = 0
         then classify_from buf (request + 1) request (strlen (requests ! nat request))
         else classify_from buf (request + 1) ty prefixsize)
      else (ty, prefixsize))"
  by pat_completeness auto
termination
  by (relation "measure (\<lambda>(buf, request, ty, prefixsize). nat (REQUEST_NUM - request))") auto

declare classify_from.simps [simp del]

definition classify :: "char list \<Rightarrow> int \<times> nat" where
  "classify buf = classify_from buf 0 REQUEST_INVALID 0"

text \<open>The test of line 180 on the classified type.\<close>

definition not_supported :: "int \<Rightarrow> bool" where
  "not_supported ty = (ty \<le> REQUEST_INVALID \<or> ty \<ge> REQUEST_NUM)"

text \<open>Lines 186 to 192: the first space from \<open>prefixsize\<close> on becomes a zero byte.\<close>

function terminate_at_space :: "char list \<Rightarrow> nat \<Rightarrow> char list" where
  "terminate_at_space buf i =
     (if i < BUFSIZE then
        (if buf ! i = CHR '' '' then buf[i := NUL] else terminate_at_space buf (i + 1))
      else buf)"
  by pat_completeness auto
termination
  by (relation "measure (\<lambda>(buf, i). BUFSIZE - i)") auto

declare terminate_at_space.simps [simp del]

definition forbidden :: "env \<Rightarrow> int \<Rightarrow> world \<Rightarrow> unit result" where
  "forbidden e socket_fd w =
     and_then (sys_write e socket_fd (take FORBIDDEN_TEXT_LENGTH (c_literal FORBIDDEN_TEXT)) w)
       (\<lambda>w1 written. Returns w1 ())"

text \<open>
  The statements \<^verbatim>\<open>forbidden(fd); exit(3);\<close> of lines 107 to 109 and 181 to 183: the
  process is left with status 3 when \<open>forbidden\<close> returns.
\<close>

definition forbidden_exit :: "env \<Rightarrow> int \<Rightarrow> world \<Rightarrow> 'a result" where
  "forbidden_exit e fd w = and_then (forbidden e fd w) (\<lambda>w1 u. Exits 3 w1)"

text \<open>
  \<^verbatim>\<open>web_read\<close>. The conversation is updated through the pointer; here the updated
  conversation is returned.
\<close>

definition web_read ::
  "env \<Rightarrow> int \<Rightarrow> WebserveConv option \<Rightarrow> world \<Rightarrow> WebserveConv option result" where
  "web_read e fd conv w =
     (let (ret, buf0) = sys_read (pending e fd) (buffer w) in
      if ret = 0 \<or> ret = - 1
      then forbidden_exit e fd (w\<lparr>buffer := buf0\<rparr>)
      else
        let buf1 = terminate_buffer buf0 ret;
            conv1 = map_option (frame_request buf1 ret) conv;
            buf2 = remove_crlf buf1 ret;
            (ty, prefixsize) = classify buf2;
            conv2 = map_option (\<lambda>c. c\<lparr>type := ty\<rparr>) conv1
        in if not_supported ty
           then forbidden_exit e fd (w\<lparr>buffer := buf2\<rparr>)
           else Returns (w\<lparr>buffer := terminate_at_space buf2 prefixsize\<rparr>) conv2)"

subsection \<open>web_write and the callbacks\<close>

text \<open>The header that \<^verbatim>\<open>sprintf\<close> builds in line 214.\<close>

definition response_head :: "nat \<Rightarrow> string" where
  "response_head len =
     ''HTTP/1.1 200 OK'' @ [LF] @ ''Server: nweb/'' @ decimal VERSION @ ''.0'' @ [LF] @
     ''Content-Length: '' @ decimal len @ [LF] @ ''Connection: close'' @ [LF] @
     ''Content-Type: '' @ RESPONSE_TYPE @ [LF] @ [LF]"

text \<open>Lines 203 to 211: what is sent, and how many bytes of it.\<close>

definition response_content :: "WebserveConv option \<Rightarrow> char list \<times> nat" where
  "response_content conv =
     (case conv of
        None \<Rightarrow> (c_literal RESPONSE_CONTENT, RESPONSE_LENGTH)
      | Some c \<Rightarrow>
          (case response c of
             None \<Rightarrow> (c_literal RESPONSE_CONTENT, RESPONSE_LENGTH)
           | Some r \<Rightarrow> (r, response_size c)))"

text \<open>
  \<^verbatim>\<open>web_write\<close>: the header is written, then the content, then the descriptor is
  closed; the source looks at the results of the writes for a log line only, so the second
  write and the \<^verbatim>\<open>close\<close> follow whatever the first write returned. Writing more bytes
  than the block holds is undefined.
\<close>

definition web_write :: "env \<Rightarrow> int \<Rightarrow> WebserveConv option \<Rightarrow> world \<Rightarrow> unit result" where
  "web_write e fd conv w =
     (let (content, len) = response_content conv in
      and_then (sys_write e fd (take (strlen (response_head len)) (response_head len)) w)
        (\<lambda>w1 written1.
           if len > length content then Faults w1
           else and_then (sys_write e fd (take len content) w1)
                  (\<lambda>w2 written. Returns (sys_close fd w2) ())))"

text \<open>
  \<^verbatim>\<open>strncpy(dest, src, n)\<close>: the \<open>n\<close> bytes stored at \<open>dest\<close>, the string followed by
  zero bytes.
\<close>

definition strncpy :: "char list \<Rightarrow> nat \<Rightarrow> char list" where
  "strncpy src n = take n (takeWhile (\<lambda>c. c \<noteq> NUL) src @ replicate n NUL)"

text \<open>
  \<^verbatim>\<open>default_conv_callback\<close>. The block is one byte longer than what \<^verbatim>\<open>strncpy\<close>
  fills; the list holds the bytes that have a value.
\<close>

definition default_conv_callback :: WebservConvCallback where
  "default_conv_callback c =
     (c\<lparr>response := Some (strncpy (c_literal RESPONSE_CONTENT) RESPONSE_LENGTH),
        response_size := RESPONSE_LENGTH\<rparr>, True)"

definition set_timeout_usec :: "Webserve \<Rightarrow> nat \<Rightarrow> Webserve" where
  "set_timeout_usec ws usec = ws\<lparr>timeout_usec := usec\<rparr>"

definition set_conv_callback :: "Webserve \<Rightarrow> WebservConvCallback option \<Rightarrow> Webserve" where
  "set_conv_callback ws cb =
     (case cb of
        Some f \<Rightarrow> ws\<lparr>conversation_callback := Some f\<rparr>
      | None \<Rightarrow> ws\<lparr>conversation_callback := Some default_conv_callback\<rparr>)"

subsection \<open>The table of conversations\<close>

text \<open>
  A block of the heap is the value of the field that points to it: \<^verbatim>\<open>free\<close> of a block
  whose pointer is then overwritten or dropped is that overwriting. \<^verbatim>\<open>calloc\<close> gives a
  record of zeros.
\<close>

definition calloc_conv :: WebserveConv where
  "calloc_conv =
     \<lparr>hit = 0, type = 0, request_header = None, request_header_size = 0,
      request_body = None, request_body_size = 0, response_code = 0,
      response = None, response_size = 0\<rparr>"

definition conversation_new :: "Webserve \<Rightarrow> int \<Rightarrow> Webserve" where
  "conversation_new ws fd =
     (if fd \<ge> 0 \<and> fd < int FD_SETSIZE
      then ws\<lparr>conversation := (conversation ws)(fd := Some (calloc_conv\<lparr>hit := hits ws, type := RESPONSE_ERROR\<rparr>))\<rparr>
      else ws)"

definition conversation_clear :: "Webserve \<Rightarrow> int \<Rightarrow> Webserve" where
  "conversation_clear ws fd =
     (if fd > 0 \<and> fd < int FD_SETSIZE
      then (case conversation ws fd of
              None \<Rightarrow> ws
            | Some c \<Rightarrow> ws\<lparr>conversation := (conversation ws)(fd := None)\<rparr>)
      else ws)"

subsection \<open>Starting the server\<close>

text \<open>
  A new descriptor is the lowest number that is not open, as POSIX has it, below the limit
  of the process; -1 says that there is none.
\<close>

function lowest_from :: "int set \<Rightarrow> nat \<Rightarrow> nat \<Rightarrow> int" where
  "lowest_from S lim k =
     (if k < lim then (if int k \<in> S then lowest_from S lim (k + 1) else int k) else - 1)"
  by pat_completeness auto
termination
  by (relation "measure (\<lambda>(S, lim, k). lim - k)") auto

declare lowest_from.simps [simp del]

definition sys_new_fd :: "bool \<Rightarrow> world \<Rightarrow> int \<times> world" where
  "sys_new_fd fails w =
     (let fd = lowest_from (open_fds w) (nofile w) 0
      in if fails \<or> fd < 0 then (- 1, w)
         else (fd, w\<lparr>open_fds := insert fd (open_fds w), sent := (sent w)(fd := [])\<rparr>))"

text \<open>
  \<^verbatim>\<open>FD_SET(fd, &webserve->active_read_fd_set)\<close>, which tests no bound. In
  \<^verbatim>\<open>struct _Webserve\<close> the set awaiting write lies directly behind the set awaiting
  read, each of \<^verbatim>\<open>FD_SETSIZE\<close> bits: for a descriptor from \<^verbatim>\<open>FD_SETSIZE\<close> on, the bit
  that is set is bit \<open>fd - FD_SETSIZE\<close> of the set awaiting write. From twice
  \<^verbatim>\<open>FD_SETSIZE\<close> on the bit lies in the fields behind the two sets, and below 0 in front
  of them; that is not followed here.
\<close>

definition FD_SET_read :: "int \<Rightarrow> Webserve \<Rightarrow> Webserve option" where
  "FD_SET_read fd ws =
     (if 0 \<le> fd \<and> fd < int FD_SETSIZE
      then Some (ws\<lparr>active_read_fd_set := insert fd (active_read_fd_set ws)\<rparr>)
      else if int FD_SETSIZE \<le> fd \<and> fd < 2 * int FD_SETSIZE
      then Some (ws\<lparr>active_write_fd_set := insert (fd - int FD_SETSIZE) (active_write_fd_set ws)\<rparr>)
      else None)"

text \<open>What the operating system decides while the server starts.\<close>

record boot =
  socket_fails :: bool
  bind_fails :: bool
  listen_fails :: bool

text \<open>The record of zeros that \<^verbatim>\<open>calloc\<close> gives.\<close>

definition calloc_webserve :: Webserve where
  "calloc_webserve =
     \<lparr>listenfd = 0, hits = 0, active_read_fd_set = {}, active_write_fd_set = {},
      timeout_usec = 0, conversation_callback = None, conversation = (\<lambda>k. None), quit = False\<rparr>"

definition check_connect :: "int \<Rightarrow> Webserve option" where
  "check_connect fd =
     map_option
       (\<lambda>ws. ws\<lparr>timeout_usec := 1000000, conversation_callback := Some default_conv_callback,
                quit := False\<rparr>)
       (FD_SET_read fd
          (calloc_webserve\<lparr>listenfd := fd, hits := 0, active_write_fd_set := {},
                           active_read_fd_set := {}\<rparr>))"

definition start_server :: "boot \<Rightarrow> int \<Rightarrow> world \<Rightarrow> Webserve result" where
  "start_server b port w =
     (let (fd, w1) = sys_new_fd (socket_fails b) w in
      if fd < 0 then Exits 3 w1
      else if port < 0 \<or> port > 60000 then Exits 3 w1
      else if bind_fails b then Exits 3 w1
      else if listen_fails b then Exits 3 w1
      else (case check_connect fd of None \<Rightarrow> Faults w1 | Some ws \<Rightarrow> Returns w1 ws))"

subsection \<open>One poll cycle\<close>

text \<open>\<^verbatim>\<open>select\<close> leaves in each set the descriptors that are ready.\<close>

definition sys_select :: "env \<Rightarrow> int set \<Rightarrow> int set \<Rightarrow> (int set \<times> int set) option" where
  "sys_select e rs wr =
     (if select_fails e then None else Some (rs \<inter> readable e, wr \<inter> writable e))"

text \<open>
  A call of a callback, which is recorded. Calling a callback with a null pointer has no
  defined result.
\<close>

definition call_back ::
  "WebservConvCallback \<Rightarrow> WebserveConv option \<Rightarrow> world \<Rightarrow> WebserveConv option result" where
  "call_back f conv w =
     (case conv of
        None \<Rightarrow> Faults w
      | Some c \<Rightarrow> Returns (w\<lparr>invoked := invoked w @ [c]\<rparr>) (Some (fst (f c))))"

text \<open>
  The value of the C expression \<^verbatim>\<open>(conv_result = false)\<close> of line 373: an assignment,
  whose value is the value assigned.
\<close>

definition assigned :: "bool \<Rightarrow> bool" where
  "assigned v = v"

text \<open>Lines 369 to 375: the callback, then perhaps the default callback.\<close>

definition answer ::
  "WebservConvCallback option \<Rightarrow> WebserveConv option \<Rightarrow> world \<Rightarrow> WebserveConv option result" where
  "answer cb conv w =
     and_then (case cb of None \<Rightarrow> Returns w conv | Some f \<Rightarrow> call_back f conv w)
       (\<lambda>w1 conv1.
          if cb = None \<or> assigned False then call_back default_conv_callback conv1 w1
          else Returns w1 conv1)"

text \<open>
  Lines 352 to 363: a connection is accepted, and its descriptor goes through
  \<^verbatim>\<open>FD_SET\<close> as it comes.
\<close>

definition service_accept :: "env \<Rightarrow> int \<Rightarrow> world \<Rightarrow> Webserve \<Rightarrow> Webserve result" where
  "service_accept e i w ws =
     (let (fd, w1) = sys_new_fd (accept_fails e) w in
      if fd < 0 then Exits 1 w1
      else (case FD_SET_read fd (ws\<lparr>hits := hits ws + 1\<rparr>) of
              None \<Rightarrow> Faults w1
            | Some ws1 \<Rightarrow> Returns w1 (conversation_new ws1 fd)))"

text \<open>Lines 366 to 377: a request is read and answered.\<close>

definition service_request :: "env \<Rightarrow> int \<Rightarrow> world \<Rightarrow> Webserve \<Rightarrow> Webserve result" where
  "service_request e i w ws =
     and_then (web_read e i (conversation ws i) w)
       (\<lambda>w1 conv1.
          and_then (answer (conversation_callback ws) conv1 w1)
            (\<lambda>w2 conv2.
               Returns w2
                 (ws\<lparr>conversation := (conversation ws)(i := conv2),
                     active_read_fd_set := active_read_fd_set ws - {i},
                     active_write_fd_set := insert i (active_write_fd_set ws)\<rparr>)))"

text \<open>Lines 382 to 386: the response is written and the conversation finished.\<close>

definition service_write :: "env \<Rightarrow> int \<Rightarrow> world \<Rightarrow> Webserve \<Rightarrow> Webserve result" where
  "service_write e i w ws =
     and_then (web_write e i (conversation ws i) w)
       (\<lambda>w1 u.
          Returns w1 (conversation_clear (ws\<lparr>active_write_fd_set := active_write_fd_set ws - {i}\<rparr>) i))"

text \<open>The body of the loop of line 348, for the descriptor \<open>i\<close>.\<close>

definition poll_service ::
  "env \<Rightarrow> int set \<Rightarrow> int set \<Rightarrow> int \<Rightarrow> world \<Rightarrow> Webserve \<Rightarrow> Webserve result" where
  "poll_service e read_fd_set write_fd_set i w ws =
     and_then
       (if i \<in> read_fd_set
        then (if i = listenfd ws then service_accept e i w ws else service_request e i w ws)
        else Returns w ws)
       (\<lambda>w1 ws1. if i \<in> write_fd_set then service_write e i w1 ws1 else Returns w1 ws1)"

function poll_scan ::
  "env \<Rightarrow> int set \<Rightarrow> int set \<Rightarrow> nat \<Rightarrow> world \<Rightarrow> Webserve \<Rightarrow> Webserve result" where
  "poll_scan e read_fd_set write_fd_set i w ws =
     (if i < FD_SETSIZE \<and> quit ws \<noteq> True then
        (case poll_service e read_fd_set write_fd_set (int i) w ws of
           Returns w1 ws1 \<Rightarrow> poll_scan e read_fd_set write_fd_set (i + 1) w1 ws1
         | Exits c w1 \<Rightarrow> Exits c w1
         | Killed w1 \<Rightarrow> Killed w1
         | Faults w1 \<Rightarrow> Faults w1)
      else Returns w ws)"
  by pat_completeness auto
termination
  by (relation "measure (\<lambda>(e, read_fd_set, write_fd_set, i, w, ws). FD_SETSIZE - i)") auto

declare poll_scan.simps [simp del]

text \<open>
  \<^verbatim>\<open>poll_once\<close>; the value it returns is the field \<open>quit\<close> of the state returned here.
  After a failed \<^verbatim>\<open>select\<close> the loop does not run, so the two sets are not looked at.
\<close>

definition poll_once :: "env \<Rightarrow> world \<Rightarrow> Webserve \<Rightarrow> Webserve result" where
  "poll_once e w ws =
     (case sys_select e (active_read_fd_set ws) (active_write_fd_set ws) of
        None \<Rightarrow> poll_scan e {} {} 0 w (ws\<lparr>quit := True\<rparr>)
      | Some (read_fd_set, write_fd_set) \<Rightarrow> poll_scan e read_fd_set write_fd_set 0 w ws)"

text \<open>
  The states the server can be in: after \<^verbatim>\<open>start_server\<close>, after any poll cycle that
  returns, after the host has changed the configuration, and after the host has opened or
  closed descriptors of its own.
\<close>

inductive reachable :: "world \<Rightarrow> Webserve \<Rightarrow> bool" where
  start: "start_server b port w0 = Returns w ws \<Longrightarrow> reachable w ws"
| poll: "reachable w ws \<Longrightarrow> poll_once e w ws = Returns w1 ws1 \<Longrightarrow> reachable w1 ws1"
| timeout: "reachable w ws \<Longrightarrow> reachable w (set_timeout_usec ws usec)"
| callback: "reachable w ws \<Longrightarrow> reachable w (set_conv_callback ws cb)"
| host_opens: "reachable w ws \<Longrightarrow> reachable (w\<lparr>open_fds := open_fds w \<union> S\<rparr>) ws"
| host_closes: "reachable w ws \<Longrightarrow> S \<inter> (active_read_fd_set ws \<union> active_write_fd_set ws) = {} \<Longrightarrow>
     reachable (w\<lparr>open_fds := open_fds w - S\<rparr>) ws"

subsection \<open>Notions the properties are stated with\<close>

text \<open>
  A carriage return or a line feed; a list in which four or more of them follow one
  another somewhere; and the place where the specification puts the boundary: behind the
  first run of at least four such bytes, or at the end when there is no such run.
  \<open>split_pos\<close> is the loop of \<open>find_boundary\<close> as a recursion over the bytes that are
  left, for the proofs.
\<close>

definition is_crlf :: "char \<Rightarrow> bool" where
  "is_crlf c = (c = CR \<or> c = LF)"

fun has_run4 :: "char list \<Rightarrow> bool" where
  "has_run4 [] = False"
| "has_run4 (c # cs) = (4 \<le> length (takeWhile is_crlf (c # cs)) \<or> has_run4 cs)"

fun spec_boundary :: "char list \<Rightarrow> nat" where
  "spec_boundary [] = 0"
| "spec_boundary (c # cs) =
     (if 4 \<le> length (takeWhile is_crlf (c # cs)) then length (takeWhile is_crlf (c # cs))
      else Suc (spec_boundary cs))"

fun split_pos :: "char list \<Rightarrow> nat \<Rightarrow> nat" where
  "split_pos [] rc = 0"
| "split_pos (c # cs) rc =
     (if is_crlf c then Suc (split_pos cs (rc + 1))
      else if 4 \<le> rc then 0 else Suc (split_pos cs 0))"

text \<open>
  A list of bytes begins with a prefix, case ignored; and a byte that is neither zero,
  carriage return, line feed nor star when put in lower case.
\<close>

definition plain :: "char \<Rightarrow> bool" where
  "plain x = (c_tolower x \<noteq> NUL \<and> c_tolower x \<noteq> CR \<and> c_tolower x \<noteq> LF \<and> c_tolower x \<noteq> CHR ''*'')"

definition ci_prefix :: "string \<Rightarrow> char list \<Rightarrow> bool" where
  "ci_prefix p s = (length p \<le> length s \<and> map c_tolower (take (length p) s) = map c_tolower p)"

text \<open>A request whose method is in the table.\<close>

definition recognized :: "char list \<Rightarrow> bool" where
  "recognized bs = (ci_prefix ''GET '' bs \<or> ci_prefix ''POST '' bs)"

text \<open>The bytes of the header and of the body that a conversation holds.\<close>

definition header_bytes :: "WebserveConv \<Rightarrow> char list" where
  "header_bytes c = (case request_header c of None \<Rightarrow> [] | Some h \<Rightarrow> take (request_header_size c) h)"

definition body_bytes :: "WebserveConv \<Rightarrow> char list" where
  "body_bytes c = (case request_body c of None \<Rightarrow> [] | Some b \<Rightarrow> take (request_body_size c) b)"

text \<open>
  The invariant of the two descriptor sets: they share no descriptor and hold open
  descriptors only. During the scan of a poll cycle, the descriptors that \<^verbatim>\<open>select\<close>
  reported and that the scan has not reached yet (from \<open>i\<close> on for reading, from \<open>j\<close>
  on for writing) are still in the sets they were reported from.
\<close>

definition tracked :: "world \<Rightarrow> Webserve \<Rightarrow> bool" where
  "tracked w ws =
     (active_read_fd_set ws \<inter> active_write_fd_set ws = {}
      \<and> active_read_fd_set ws \<union> active_write_fd_set ws \<subseteq> open_fds w)"

definition pending_ready :: "int set \<Rightarrow> int set \<Rightarrow> nat \<Rightarrow> nat \<Rightarrow> Webserve \<Rightarrow> bool" where
  "pending_ready rs wr i j ws =
     ((\<forall>k. k \<in> rs \<and> int i \<le> k \<longrightarrow> k \<in> active_read_fd_set ws)
      \<and> (\<forall>k. k \<in> wr \<and> int j \<le> k \<longrightarrow> k \<in> active_write_fd_set ws))"

subsection \<open>Sample inputs\<close>

text \<open>
  The buffer of a process that has just started, a world in which the descriptors 0 to 5
  are open, nothing has been written and no callback has been called, and some requests.
\<close>

definition zero_buffer :: "char list" where
  "zero_buffer = replicate (BUFSIZE + 1) NUL"

definition sample_world :: world where
  "sample_world =
     \<lparr>open_fds = {0, 1, 2, 3, 4, 5}, sent = (\<lambda>k. []), buffer = zero_buffer, invoked = [],
      nofile = 1024\<rparr>"

definition get_request :: "char list" where
  "get_request = ''GET / HTTP/1.1'' @ [CR, LF] @ ''Host: x'' @ [CR, LF, CR, LF]"

definition post_request :: "char list" where
  "post_request = ''POST /f HTTP/1.1'' @ [CR, LF] @ ''Host: x'' @ [CR, LF, CR, LF] @ ''a=1''"

definition delete_request :: "char list" where
  "delete_request = ''DELETE / HTTP/1.1'' @ [CR, LF, CR, LF]"

definition long_request :: "char list" where
  "long_request = ''GET '' @ replicate 8092 (CHR ''a'')"

text \<open>
  A start at which no system call fails, the world of a process with its three standard
  descriptors, the server that listens on a descriptor and has done nothing yet, a server
  with two clients that have connected and not yet sent anything, a cycle in which the
  first of them sends a DELETE request and the second a GET request, a cycle in which one
  client connects, and a cycle in which a write on descriptor 4 succeeds. In all of them
  the clients stay connected.
\<close>

definition boot_ok :: boot where
  "boot_ok = \<lparr>socket_fails = False, bind_fails = False, listen_fails = False\<rparr>"

definition fresh_world :: world where
  "fresh_world =
     \<lparr>open_fds = {0, 1, 2}, sent = (\<lambda>k. []), buffer = zero_buffer, invoked = [], nofile = 1024\<rparr>"

definition server_on :: "int \<Rightarrow> Webserve" where
  "server_on fd =
     \<lparr>listenfd = fd, hits = 0, active_read_fd_set = {fd}, active_write_fd_set = {},
      timeout_usec = 1000000, conversation_callback = Some default_conv_callback,
      conversation = (\<lambda>k. None), quit = False\<rparr>"

definition two_clients :: Webserve where
  "two_clients =
     \<lparr>listenfd = 3, hits = 2, active_read_fd_set = {3, 4, 5}, active_write_fd_set = {},
      timeout_usec = 1000000, conversation_callback = Some default_conv_callback,
      conversation = (\<lambda>k. if k = 4 then Some (calloc_conv\<lparr>hit := 1, type := RESPONSE_ERROR\<rparr>)
                         else if k = 5 then Some (calloc_conv\<lparr>hit := 2, type := RESPONSE_ERROR\<rparr>)
                         else None),
      quit = False\<rparr>"

definition delete_then_get :: env where
  "delete_then_get =
     \<lparr>select_fails = False, readable = {4, 5}, writable = {}, accept_fails = False,
      pending = (\<lambda>k. if k = 4 then Some delete_request else Some get_request),
      on_write = (\<lambda>k. Written)\<rparr>"

definition one_connects :: env where
  "one_connects =
     \<lparr>select_fails = False, readable = {3}, writable = {}, accept_fails = False,
      pending = (\<lambda>k. None), on_write = (\<lambda>k. Written)\<rparr>"

definition writes_4 :: env where
  "writes_4 =
     \<lparr>select_fails = False, readable = {}, writable = {4}, accept_fails = False,
      pending = (\<lambda>k. None), on_write = (\<lambda>k. Written)\<rparr>"

definition long_get :: env where
  "long_get =
     \<lparr>select_fails = False, readable = {4}, writable = {}, accept_fails = False,
      pending = (\<lambda>k. Some long_request), on_write = (\<lambda>k. Written)\<rparr>"

text \<open>
  A process that may have 4096 descriptors and whose host holds, when it starts the server,
  the three standard descriptors and the descriptors 4 to 1026; and that process when the
  server has started on descriptor 3.
\<close>

definition crowd :: "int set" where
  "crowd = {k. 4 \<le> k \<and> k \<le> 1026}"

definition crowded_world :: world where
  "crowded_world =
     \<lparr>open_fds = {0, 1, 2} \<union> crowd, sent = (\<lambda>k. []), buffer = zero_buffer, invoked = [],
      nofile = 4096\<rparr>"

definition crowded_listening :: world where
  "crowded_listening =
     crowded_world\<lparr>open_fds := insert 3 (open_fds crowded_world),
                   sent := (sent crowded_world)(3 := [])\<rparr>"


section \<open>Properties\<close>

subsection \<open>The boundary between header and body\<close>

lemma spec_boundary_run: "4 \<le> length (takeWhile is_crlf cs) \<Longrightarrow> spec_boundary cs = length (takeWhile is_crlf cs)"
  by (cases cs) auto

lemma split_pos_spec:
  "split_pos xs rc = (if 4 \<le> rc + length (takeWhile is_crlf xs) then length (takeWhile is_crlf xs) else spec_boundary xs)"
proof (induction xs arbitrary: rc)
  case Nil
  then show ?case by simp
next
  case (Cons c cs)
  show ?case
  proof (cases "is_crlf c")
    case True
    then show ?thesis using Cons.IH [of "rc + 1"] by auto
  next
    case False
    then show ?thesis using Cons.IH [of 0] spec_boundary_run [of cs] by auto
  qed
qed

lemma split_pos_0: "split_pos xs 0 = spec_boundary xs"
  using split_pos_spec [of xs 0] spec_boundary_run [of xs] by auto

lemma find_boundary_done: "boundary \<noteq> ret \<Longrightarrow> find_boundary buf ret boundary rc i = boundary"
  by (subst find_boundary.simps) simp

lemma find_boundary_split:
  "boundary = ret \<Longrightarrow> 0 \<le> i \<Longrightarrow> i \<le> ret \<Longrightarrow> nat ret \<le> length buf \<Longrightarrow> 0 \<le> rc \<Longrightarrow>
   find_boundary buf ret boundary rc i = i + int (split_pos (drop (nat i) (take (nat ret) buf)) (nat rc))"
proof (induction buf ret boundary rc i rule: find_boundary.induct)
  case (1 buf ret boundary retcount i)
  show ?case
  proof (cases "i < ret")
    case False
    with 1 have "i = ret" by simp
    then show ?thesis using 1 by (subst find_boundary.simps) simp
  next
    case True
    have len: "nat i < length (take (nat ret) buf)" using True 1 by simp
    have dr: "drop (nat i) (take (nat ret) buf) = buf ! nat i # drop (nat (i + 1)) (take (nat ret) buf)"
      using Cons_nth_drop_Suc [OF len] True 1 by (simp add: nat_add_distrib)
    show ?thesis
    proof (cases "buf ! nat i = CR \<or> buf ! nat i = LF")
      case crlf: True
      have "find_boundary buf ret boundary retcount i = find_boundary buf ret boundary (retcount + 1) (i + 1)"
        using True crlf 1(4) by (subst find_boundary.simps) simp
      also have "\<dots> = (i + 1) + int (split_pos (drop (nat (i + 1)) (take (nat ret) buf)) (nat (retcount + 1)))"
        using 1(1) [OF _ crlf] True 1 by simp
      finally show ?thesis using crlf 1 by (simp add: dr is_crlf_def nat_add_distrib)
    next
      case ncrlf: False
      show ?thesis
      proof (cases "retcount \<ge> 4")
        case big: True
        have "find_boundary buf ret boundary retcount i = find_boundary buf ret i retcount (i + 1)"
          using True ncrlf big 1(4) by (subst find_boundary.simps) simp
        also have "\<dots> = i" using True by (simp add: find_boundary_done)
        finally show ?thesis using ncrlf big 1 by (simp add: dr is_crlf_def)
      next
        case small: False
        have "find_boundary buf ret boundary retcount i = find_boundary buf ret boundary 0 (i + 1)"
          using True ncrlf small 1(4) by (subst find_boundary.simps) simp
        also have "\<dots> = (i + 1) + int (split_pos (drop (nat (i + 1)) (take (nat ret) buf)) (nat 0))"
          using 1(3) [OF _ ncrlf small] True 1 by simp
        finally show ?thesis using ncrlf small 1 by (simp add: dr is_crlf_def)
      qed
    qed
  qed
qed

lemma find_boundary_spec:
  "0 \<le> ret \<Longrightarrow> nat ret \<le> length buf \<Longrightarrow>
   find_boundary buf ret ret 0 0 = int (spec_boundary (take (nat ret) buf))"
  using find_boundary_split [of ret ret 0 buf 0] by (simp add: split_pos_0)

lemma spec_boundary_le: "spec_boundary xs \<le> length xs"
proof (induction xs)
  case Nil show ?case by simp
next
  case (Cons c cs)
  have "length (takeWhile is_crlf (c # cs)) \<le> length (c # cs)" by (rule length_takeWhile_le)
  then show ?case using Cons by auto
qed

lemma no_run_boundary: "\<not> has_run4 xs \<Longrightarrow> spec_boundary xs = length xs"
  by (induction xs) auto

lemma run_boundary:
  "\<not> has_run4 p \<Longrightarrow> p = [] \<or> \<not> is_crlf (last p) \<Longrightarrow> 4 \<le> length r \<Longrightarrow> list_all is_crlf r \<Longrightarrow>
   s = [] \<or> \<not> is_crlf (hd s) \<Longrightarrow> spec_boundary (p @ r @ s) = length p + length r"
proof (induction p)
  case Nil
  have tw: "takeWhile is_crlf (r @ s) = r"
    using Nil by (cases s) (auto simp: list_all_iff takeWhile_append2 takeWhile_eq_all_conv)
  show ?case using Nil spec_boundary_run [of "r @ s"] tw by simp
next
  case (Cons c p)
  have "\<not> is_crlf (last (c # p))" using Cons.prems by simp
  moreover have "last (c # p) \<in> set (c # p)" by (rule last_in_set) simp
  ultimately have "takeWhile is_crlf ((c # p) @ r @ s) = takeWhile is_crlf (c # p)"
    by (rule takeWhile_append1 [rotated])
  moreover have "p = [] \<or> \<not> is_crlf (last p)" using Cons.prems by (cases p) auto
  ultimately show ?case using Cons by auto
qed

subsection \<open>The classification of the method\<close>

lemma c_tolower_NUL: "c_tolower c = NUL \<longleftrightarrow> c = NUL"
  by (simp add: c_tolower_def NUL_def)

lemma of_char_diff: "int (of_char (a::char)) - int (of_char b) = 0 \<longleftrightarrow> a = b"
  by simp

lemma c_tolower_NUL_eq: "c_tolower NUL = NUL"
  by (simp add: c_tolower_def NUL_def)

lemma strncasecmp_prefix:
  "NUL \<notin> set p \<Longrightarrow> strncasecmp s p (length p) = 0 \<longleftrightarrow> ci_prefix p s"
proof (induction p arbitrary: s)
  case Nil
  show ?case by (simp add: ci_prefix_def)
next
  case (Cons x xs)
  have x: "c_tolower x \<noteq> NUL" using Cons.prems by (auto simp: c_tolower_NUL)
  show ?case
  proof (cases s)
    case Nil
    then show ?thesis using x by (simp add: ci_prefix_def Let_def c_tolower_NUL_eq)
  next
    case (Cons y ys)
    then show ?thesis using x Cons.IH [of ys] Cons.prems
      by (auto simp: ci_prefix_def Let_def)
  qed
qed

lemma classify_from_stop:
  "\<not> (request < REQUEST_NUM \<and> ty = REQUEST_INVALID) \<Longrightarrow> classify_from buf request ty ps = (ty, ps)"
  by (subst classify_from.simps, rule if_not_P)

lemma classify_from_step:
  "request < REQUEST_NUM \<Longrightarrow>
   classify_from buf request REQUEST_INVALID ps =
     (if strncasecmp buf (requests ! nat request) (strlen (requests ! nat request)) = 0
      then classify_from buf (request + 1) request (strlen (requests ! nat request))
      else classify_from buf (request + 1) REQUEST_INVALID ps)"
  by (subst classify_from.simps) simp

lemma classify_eq:
  "classify buf =
     (if ci_prefix ''GET '' buf then (REQUEST_GET, 4)
      else if ci_prefix ''POST '' buf then (REQUEST_POST, 5)
      else (REQUEST_INVALID, 0))"
proof -
  have g: "strncasecmp buf ''GET '' 4 = 0 \<longleftrightarrow> ci_prefix ''GET '' buf"
    using strncasecmp_prefix [of "''GET ''" buf] by (simp add: NUL_def eval_nat_numeral)
  have p: "strncasecmp buf ''POST '' 5 = 0 \<longleftrightarrow> ci_prefix ''POST '' buf"
    using strncasecmp_prefix [of "''POST ''" buf] by (simp add: NUL_def eval_nat_numeral)
  have r: "requests ! 0 = ''GET ''" "requests ! Suc 0 = ''POST ''" by (simp_all add: requests_def)
  have l: "strlen ''GET '' = 4" "strlen ''POST '' = 5" by (simp_all add: strlen_def NUL_def)
  have s2: "classify_from buf 2 ty ps = (ty, ps)" for ty ps
    by (rule classify_from_stop) (simp add: REQUEST_NUM_def)
  have s1: "classify_from buf 1 0 ps = (0, ps)" for ps
    by (rule classify_from_stop) (simp add: REQUEST_INVALID_def)
  have t1: "classify_from buf 1 REQUEST_INVALID 0 =
      (if ci_prefix ''POST '' buf then (1, 5) else (REQUEST_INVALID, 0))"
    using classify_from_step [of 1 buf 0] s2 by (simp add: REQUEST_NUM_def r p l)
  have t0: "classify_from buf 0 REQUEST_INVALID 0 =
      (if ci_prefix ''GET '' buf then (0, 4) else classify_from buf 1 REQUEST_INVALID 0)"
    using classify_from_step [of 0 buf 0] s1 by (simp add: REQUEST_NUM_def r g l)
  show ?thesis
    by (simp add: classify_def t0 t1 REQUEST_GET_def REQUEST_POST_def)
qed

subsection \<open>web_read on the bytes received\<close>

lemma ci_prefix_Nil: "ci_prefix [] s"
  by (simp add: ci_prefix_def)

lemma ci_prefix_Cons_Nil: "\<not> ci_prefix (x # xs) []"
  by (simp add: ci_prefix_def)

lemma ci_prefix_Cons_Cons:
  "ci_prefix (x # xs) (y # ys) \<longleftrightarrow> c_tolower y = c_tolower x \<and> ci_prefix xs ys"
  by (auto simp: ci_prefix_def)

lemma star_crlf_tolower:
  "plain x \<Longrightarrow> c_tolower (star_crlf y) = c_tolower x \<longleftrightarrow> c_tolower y = c_tolower x"
proof -
  have "c_tolower CR = CR" "c_tolower LF = LF" "c_tolower (CHR ''*'') = CHR ''*''"
    by (simp_all add: c_tolower_def CR_def LF_def)
  then show "plain x \<Longrightarrow> c_tolower (star_crlf y) = c_tolower x \<longleftrightarrow> c_tolower y = c_tolower x"
    by (auto simp: plain_def star_crlf_def)
qed

lemma ci_prefix_buffer:
  "list_all plain p \<Longrightarrow> ci_prefix p (map star_crlf bs @ NUL # rest) \<longleftrightarrow> ci_prefix p bs"
proof (induction p arbitrary: bs)
  case Nil
  show ?case by (simp add: ci_prefix_Nil)
next
  case (Cons x xs)
  show ?case
  proof (cases bs)
    case Nil
    then show ?thesis using Cons.prems
      by (auto simp: ci_prefix_Cons_Nil ci_prefix_Cons_Cons plain_def c_tolower_NUL_eq)
  next
    case (Cons y ys)
    then show ?thesis using Cons.prems Cons.IH [of ys]
      by (simp add: ci_prefix_Cons_Cons star_crlf_tolower)
  qed
qed

lemma plain_GET: "list_all plain ''GET ''"
  by (simp add: plain_def c_tolower_def NUL_def CR_def LF_def)

lemma plain_POST: "list_all plain ''POST ''"
  by (simp add: plain_def c_tolower_def NUL_def CR_def LF_def)

lemma ci_prefix_NUL: "x \<noteq> NUL \<Longrightarrow> \<not> ci_prefix (x # xs) (NUL # s)"
  by (simp add: ci_prefix_Cons_Cons c_tolower_NUL_eq) (metis c_tolower_NUL)

lemma remove_crlf_app:
  "remove_crlf (bs @ rest) (int (length bs)) = map star_crlf bs @ rest"
  by (simp add: remove_crlf_def)

lemma frame_request_eq:
  "frame_request (bs @ rest) (int (length bs)) c =
     c\<lparr>request_header := Some (take (spec_boundary bs) bs @ [NUL]),
       request_header_size := spec_boundary bs,
       request_body := Some (drop (spec_boundary bs) bs @ [NUL]),
       request_body_size := length bs - spec_boundary bs\<rparr>"
proof -
  have b: "find_boundary (bs @ rest) (int (length bs)) (int (length bs)) 0 0 = int (spec_boundary bs)"
    using find_boundary_spec [of "int (length bs)" "bs @ rest"] by simp
  have le: "spec_boundary bs \<le> length bs" by (rule spec_boundary_le)
  show ?thesis
    using le by (simp add: frame_request_def copy_request_def b nat_diff_distrib' of_nat_diff [symmetric] del: of_nat_diff)
qed


lemma terminate_short:
  "0 < length bs \<Longrightarrow> length bs < BUFSIZE \<Longrightarrow> rest \<noteq> [] \<Longrightarrow>
   terminate_buffer (bs @ rest) (int (length bs)) = bs @ NUL # tl rest"
  by (cases rest) (simp_all add: terminate_buffer_def list_update_append)

lemma terminate_full:
  "length bs = BUFSIZE \<Longrightarrow> terminate_buffer (bs @ rest) (int (length bs)) = NUL # tl bs @ rest"
  by (cases bs) (simp_all add: terminate_buffer_def BUFSIZE_def)

lemma sys_read_Some:
  "sys_read (Some bs) buf = (int (length (take BUFSIZE bs)), take BUFSIZE bs @ drop (length (take BUFSIZE bs)) buf)"
  by (simp add: sys_read_def)

lemma classify_supported:
  "not_supported (fst (classify buf)) \<longleftrightarrow> \<not> ci_prefix ''GET '' buf \<and> \<not> ci_prefix ''POST '' buf"
  by (simp add: classify_eq not_supported_def REQUEST_INVALID_def REQUEST_GET_def REQUEST_POST_def REQUEST_NUM_def)

lemma web_read_full:
  assumes p: "pending e fd = Some bs" and len: "BUFSIZE \<le> length bs"
  shows "web_read e fd conv w =
     forbidden_exit e fd (w\<lparr>buffer := NUL # map star_crlf (tl (take BUFSIZE bs)) @ drop BUFSIZE (buffer w)\<rparr>)"
proof -
  let ?d = "take BUFSIZE bs"
  have l: "length ?d = BUFSIZE" using len by simp
  have t: "terminate_buffer (?d @ drop BUFSIZE (buffer w)) (int BUFSIZE) = NUL # tl ?d @ drop BUFSIZE (buffer w)"
    using terminate_full [OF l, of "drop BUFSIZE (buffer w)"] l by simp
  have r: "remove_crlf (NUL # tl ?d @ drop BUFSIZE (buffer w)) (int BUFSIZE) =
        NUL # map star_crlf (tl ?d) @ drop BUFSIZE (buffer w)"
    using remove_crlf_app [of "NUL # tl ?d" "drop BUFSIZE (buffer w)"] l
    by (simp add: star_crlf_def NUL_def CR_def LF_def BUFSIZE_def)
  have c: "not_supported (fst (classify (NUL # map star_crlf (tl ?d) @ drop BUFSIZE (buffer w))))"
  proof -
    have "CHR ''G'' \<noteq> NUL" "CHR ''P'' \<noteq> NUL" by (simp_all add: NUL_def)
    then show ?thesis by (simp add: classify_supported ci_prefix_NUL)
  qed
  have nz: "BUFSIZE \<noteq> 0" by (simp add: BUFSIZE_def)
  have m: "min (length bs) BUFSIZE = BUFSIZE" using len by simp
  show ?thesis
    using c by (auto simp: web_read_def p sys_read_Some m t r nz Let_def split: prod.splits)
qed


lemma web_read_short:
  assumes p: "pending e fd = Some bs" and pos: "0 < length bs" and len: "length bs < BUFSIZE"
    and buf: "length (buffer w) = BUFSIZE + 1"
  shows "web_read e fd conv w =
     (let buf2 = map star_crlf bs @ NUL # drop (length bs + 1) (buffer w) in
      if \<not> ci_prefix ''GET '' bs \<and> \<not> ci_prefix ''POST '' bs
      then forbidden_exit e fd (w\<lparr>buffer := buf2\<rparr>)
      else Returns (w\<lparr>buffer := terminate_at_space buf2 (if ci_prefix ''GET '' bs then 4 else 5)\<rparr>)
             (map_option (\<lambda>c. c\<lparr>request_header := Some (take (spec_boundary bs) bs @ [NUL]),
                   request_header_size := spec_boundary bs,
                   request_body := Some (drop (spec_boundary bs) bs @ [NUL]),
                   request_body_size := length bs - spec_boundary bs,
                   type := (if ci_prefix ''GET '' bs then REQUEST_GET else REQUEST_POST)\<rparr>) conv))"
proof -
  let ?rest = "drop (length bs) (buffer w)"
  have d: "take BUFSIZE bs = bs" using len by simp
  have ne: "?rest \<noteq> []" using len buf by simp
  have tl: "tl ?rest = drop (length bs + 1) (buffer w)" by (simp add: drop_Suc tl_drop)
  have t: "terminate_buffer (bs @ ?rest) (int (length bs)) = bs @ NUL # drop (length bs + 1) (buffer w)"
    using terminate_short [OF pos len ne] tl by simp
  have g: "ci_prefix ''GET '' (map star_crlf bs @ NUL # r) = ci_prefix ''GET '' bs" for r
    by (rule ci_prefix_buffer [OF plain_GET])
  have q: "ci_prefix ''POST '' (map star_crlf bs @ NUL # r) = ci_prefix ''POST '' bs" for r
    by (rule ci_prefix_buffer [OF plain_POST])
  show ?thesis
    using pos
    by (simp add: web_read_def p sys_read_Some d t frame_request_eq remove_crlf_app classify_eq g q
        not_supported_def REQUEST_INVALID_def REQUEST_GET_def REQUEST_POST_def REQUEST_NUM_def Let_def
        option.map_comp comp_def)
qed


lemma and_then_Returns [simp]: "and_then (Returns w x) f = f w x"
  by (simp add: and_then_def)

lemma and_then_Exits [simp]: "and_then (Exits c w) f = Exits c w"
  by (simp add: and_then_def)

lemma and_then_Killed [simp]: "and_then (Killed w) f = Killed w"
  by (simp add: and_then_def)

lemma and_then_Faults [simp]: "and_then (Faults w) f = Faults w"
  by (simp add: and_then_def)

lemma and_then_returns:
  "and_then r f = Returns w x \<Longrightarrow> \<exists>w1 y. r = Returns w1 y \<and> f w1 y = Returns w x"
  by (cases r) simp_all

lemma delivered_fields:
  "sent (delivered fd bytes w) = (sent w)(fd := sent w fd @ bytes)"
  "open_fds (delivered fd bytes w) = open_fds w"
  "invoked (delivered fd bytes w) = invoked w"
  "nofile (delivered fd bytes w) = nofile w"
  "buffer (delivered fd bytes w) = buffer w"
  by (simp_all add: delivered_def)

lemma forbidden_exit_eq:
  "forbidden_exit e fd w =
     (case on_write e fd of
        Written \<Rightarrow> Exits 3 (delivered fd (c_literal FORBIDDEN_TEXT) w)
      | Written_Part n \<Rightarrow> Exits 3 (delivered fd (take n (c_literal FORBIDDEN_TEXT)) w)
      | Write_Fails \<Rightarrow> Exits 3 w
      | Sigpipe \<Rightarrow> Killed w)"
  by (simp add: forbidden_exit_def forbidden_def sys_write_def FORBIDDEN_TEXT_LENGTH_def c_sizeof_def
      split: write_outcome.splits)

subsection \<open>Claims about the framing of a request\<close>

text \<open>
  Claim C2. For every buffer (the bytes \<open>bs\<close> that were read, followed by whatever the
  buffer holds behind them) the framer copies the header and the body into blocks of their
  own, and the two are the bytes up to and from the end of the first run of at least four
  carriage returns and line feeds: when the bytes are \<open>p\<close>, then such a run \<open>r\<close> that
  is not part of a longer one, then \<open>s\<close>, and \<open>p\<close> holds no such run, the header is
  \<open>p @ r\<close> and the body is \<open>s\<close>. When no such run occurs, the header is all of the
  bytes and the body is empty.
\<close>

theorem framer_splits_at_first_run:
  "request_header (frame_request (bs @ rest) (int (length bs)) c) = Some (header_bytes (frame_request (bs @ rest) (int (length bs)) c) @ [NUL])
   \<and> request_body (frame_request (bs @ rest) (int (length bs)) c) = Some (body_bytes (frame_request (bs @ rest) (int (length bs)) c) @ [NUL])
   \<and> header_bytes (frame_request (bs @ rest) (int (length bs)) c) = take (spec_boundary bs) bs
   \<and> body_bytes (frame_request (bs @ rest) (int (length bs)) c) = drop (spec_boundary bs) bs
   \<and> (\<not> has_run4 bs \<longrightarrow>
        header_bytes (frame_request (bs @ rest) (int (length bs)) c) = bs
        \<and> body_bytes (frame_request (bs @ rest) (int (length bs)) c) = [])
   \<and> (\<forall>p r s. bs = p @ r @ s \<and> \<not> has_run4 p \<and> (p = [] \<or> \<not> is_crlf (last p))
          \<and> 4 \<le> length r \<and> list_all is_crlf r \<and> (s = [] \<or> \<not> is_crlf (hd s)) \<longrightarrow>
        header_bytes (frame_request (bs @ rest) (int (length bs)) c) = p @ r
        \<and> body_bytes (frame_request (bs @ rest) (int (length bs)) c) = s)"
proof -
  let ?c = "frame_request (bs @ rest) (int (length bs)) c"
  have le: "spec_boundary bs \<le> length bs" by (rule spec_boundary_le)
  have h: "header_bytes ?c = take (spec_boundary bs) bs"
    using le by (simp add: frame_request_eq header_bytes_def)
  have b: "body_bytes ?c = drop (spec_boundary bs) bs"
    by (simp add: frame_request_eq body_bytes_def)
  have hp: "request_header ?c = Some (header_bytes ?c @ [NUL])"
    unfolding h by (simp add: frame_request_eq)
  have bp: "request_body ?c = Some (body_bytes ?c @ [NUL])"
    unfolding b by (simp add: frame_request_eq)
  have n: "\<not> has_run4 bs \<longrightarrow> header_bytes ?c = bs \<and> body_bytes ?c = []"
    by (simp add: h b no_run_boundary)
  have r: "header_bytes ?c = p @ r \<and> body_bytes ?c = s"
    if "bs = p @ r @ s \<and> \<not> has_run4 p \<and> (p = [] \<or> \<not> is_crlf (last p))
          \<and> 4 \<le> length r \<and> list_all is_crlf r \<and> (s = [] \<or> \<not> is_crlf (hd s))" for p r s
  proof -
    have eq: "bs = p @ r @ s" using that by simp
    have "spec_boundary (p @ r @ s) = length p + length r"
      using that run_boundary [of p r s] by simp
    then show ?thesis by (simp only: h b) (simp add: eq)
  qed
  show ?thesis using hp bp h b n r by blast
qed

theorem framer_splits_at_first_run_witness:
  "header_bytes (frame_request (post_request @ [NUL]) (int (length post_request)) calloc_conv)
     = ''POST /f HTTP/1.1'' @ [CR, LF] @ ''Host: x'' @ [CR, LF, CR, LF]
   \<and> body_bytes (frame_request (post_request @ [NUL]) (int (length post_request)) calloc_conv) = ''a=1''
   \<and> header_bytes (frame_request (''GET / HTTP/1.1'' @ [CR, LF] @ [NUL]) (int (length (''GET / HTTP/1.1'' @ [CR, LF]))) calloc_conv)
     = ''GET / HTTP/1.1'' @ [CR, LF]
   \<and> body_bytes (frame_request (''GET / HTTP/1.1'' @ [CR, LF] @ [NUL]) (int (length (''GET / HTTP/1.1'' @ [CR, LF]))) calloc_conv) = []"
proof -
  have d: "post_request = (''POST /f HTTP/1.1'' @ [CR, LF] @ ''Host: x'') @ [CR, LF, CR, LF] @ ''a=1''"
    by (simp add: post_request_def)
  have p: "\<not> has_run4 (''POST /f HTTP/1.1'' @ [CR, LF] @ ''Host: x'')"
    by (simp add: is_crlf_def CR_def LF_def)
  have q: "\<not> has_run4 (''GET / HTTP/1.1'' @ [CR, LF])"
    by (simp add: is_crlf_def CR_def LF_def)
  have e: "\<not> is_crlf (last (''POST /f HTTP/1.1'' @ [CR, LF] @ ''Host: x''))"
      "list_all is_crlf [CR, LF, CR, LF]" "\<not> is_crlf (hd ''a=1'')"
    by (simp_all add: is_crlf_def CR_def LF_def)
  have 1: "header_bytes (frame_request (post_request @ [NUL]) (int (length post_request)) calloc_conv)
     = (''POST /f HTTP/1.1'' @ [CR, LF] @ ''Host: x'') @ [CR, LF, CR, LF]
   \<and> body_bytes (frame_request (post_request @ [NUL]) (int (length post_request)) calloc_conv) = ''a=1''"
  proof -
    have f: "4 \<le> length [CR, LF, CR, LF]" by simp
    from d p e f have prem: "post_request = (''POST /f HTTP/1.1'' @ [CR, LF] @ ''Host: x'') @ [CR, LF, CR, LF] @ ''a=1''
        \<and> \<not> has_run4 (''POST /f HTTP/1.1'' @ [CR, LF] @ ''Host: x'')
        \<and> (''POST /f HTTP/1.1'' @ [CR, LF] @ ''Host: x'' = [] \<or> \<not> is_crlf (last (''POST /f HTTP/1.1'' @ [CR, LF] @ ''Host: x'')))
        \<and> 4 \<le> length [CR, LF, CR, LF] \<and> list_all is_crlf [CR, LF, CR, LF]
        \<and> (''a=1'' = [] \<or> \<not> is_crlf (hd ''a=1''))"
      by blast
    show ?thesis
      by (rule framer_splits_at_first_run [of post_request "[NUL]" calloc_conv,
          THEN conjunct2, THEN conjunct2, THEN conjunct2, THEN conjunct2, THEN conjunct2, rule_format,
          OF prem])
  qed
  from framer_splits_at_first_run [of "''GET / HTTP/1.1'' @ [CR, LF]" "[NUL]" calloc_conv] q
  have 2: "header_bytes (frame_request ((''GET / HTTP/1.1'' @ [CR, LF]) @ [NUL]) (int (length (''GET / HTTP/1.1'' @ [CR, LF]))) calloc_conv)
     = ''GET / HTTP/1.1'' @ [CR, LF]
   \<and> body_bytes (frame_request ((''GET / HTTP/1.1'' @ [CR, LF]) @ [NUL]) (int (length (''GET / HTTP/1.1'' @ [CR, LF]))) calloc_conv) = []"
    by blast
  show ?thesis using 1 2 by simp
qed

text \<open>
  Claim C6. The method is found by trying the entries of the table in their order, GET
  before POST, without regard to case, and the first that fits is taken: a buffer is
  classified GET exactly when it begins with \<open>''GET ''\<close>, POST exactly when it begins
  with \<open>''POST ''\<close> (and then not with \<open>''GET ''\<close>), and is invalid, which the test of
  line 180 rejects, in every other case.
\<close>

theorem method_classified_by_prefix_table:
  "fst (classify buf) =
     (if ci_prefix ''GET '' buf then REQUEST_GET
      else if ci_prefix ''POST '' buf then REQUEST_POST
      else REQUEST_INVALID)
   \<and> (fst (classify buf) = REQUEST_GET \<longleftrightarrow> ci_prefix ''GET '' buf)
   \<and> (fst (classify buf) = REQUEST_POST \<longleftrightarrow> ci_prefix ''POST '' buf \<and> \<not> ci_prefix ''GET '' buf)
   \<and> (not_supported (fst (classify buf)) \<longleftrightarrow> \<not> ci_prefix ''GET '' buf \<and> \<not> ci_prefix ''POST '' buf)"
  by (simp add: classify_eq classify_supported [simplified classify_eq] not_supported_def
      REQUEST_GET_def REQUEST_POST_def REQUEST_INVALID_def REQUEST_NUM_def)

text \<open>
  Claim C10. When the read fills the buffer (8096 bytes), the buffer is terminated at
  position 0 before the method is looked at, so the request is classified as invalid and
  takes the path of \<open>forbidden\<close> and \<^verbatim>\<open>exit(3)\<close>, whatever the bytes begin with: with a
  client that takes the write, the forbidden document is written and the process left, for
  instance on a request of 8096 bytes that begins with \<open>''GET ''\<close>.
\<close>

theorem full_buffer_read_is_forbidden:
  assumes "pending e fd = Some bs" and "BUFSIZE \<le> length bs"
  shows "fst (sys_read (pending e fd) (buffer w)) = int BUFSIZE
     \<and> terminate_buffer (snd (sys_read (pending e fd) (buffer w))) (int BUFSIZE) ! 0 = NUL
     \<and> fst (classify (remove_crlf (terminate_buffer (snd (sys_read (pending e fd) (buffer w))) (int BUFSIZE)) (int BUFSIZE)))
         = REQUEST_INVALID
     \<and> (\<exists>b. web_read e fd conv w = forbidden_exit e fd (w\<lparr>buffer := b\<rparr>))
     \<and> (on_write e fd = Written \<longrightarrow>
          (\<exists>w'. web_read e fd conv w = Exits 3 w'
             \<and> sent w' = (sent w)(fd := sent w fd @ c_literal FORBIDDEN_TEXT)))"
proof -
  let ?d = "take BUFSIZE bs"
  let ?b = "NUL # map star_crlf (tl ?d) @ drop BUFSIZE (buffer w)"
  have l: "length ?d = BUFSIZE" using assms by simp
  have m: "min (length bs) BUFSIZE = BUFSIZE" using assms by simp
  have t: "terminate_buffer (?d @ drop BUFSIZE (buffer w)) (int BUFSIZE) = NUL # tl ?d @ drop BUFSIZE (buffer w)"
    using terminate_full [OF l, of "drop BUFSIZE (buffer w)"] l by simp
  have r: "remove_crlf (NUL # tl ?d @ drop BUFSIZE (buffer w)) (int BUFSIZE) = ?b"
    using remove_crlf_app [of "NUL # tl ?d" "drop BUFSIZE (buffer w)"] l
    by (simp add: star_crlf_def NUL_def CR_def LF_def BUFSIZE_def)
  have n: "CHR ''G'' \<noteq> NUL" "CHR ''P'' \<noteq> NUL" by (simp_all add: NUL_def)
  have c: "fst (classify (NUL # s)) = REQUEST_INVALID" for s
    using n by (simp add: classify_eq ci_prefix_NUL)
  have 1: "fst (sys_read (pending e fd) (buffer w)) = int BUFSIZE"
    by (simp add: assms(1) sys_read_Some m)
  have 2: "snd (sys_read (pending e fd) (buffer w)) = ?d @ drop BUFSIZE (buffer w)"
    by (simp add: assms(1) sys_read_Some m)
  have 3: "web_read e fd conv w = forbidden_exit e fd (w\<lparr>buffer := ?b\<rparr>)"
    by (rule web_read_full [OF assms])
  have 4: "\<exists>b. web_read e fd conv w = forbidden_exit e fd (w\<lparr>buffer := b\<rparr>)"
    by (rule exI [where P = "\<lambda>b. web_read e fd conv w = forbidden_exit e fd (w\<lparr>buffer := b\<rparr>)"], rule 3)
  have 5: "\<exists>w'. web_read e fd conv w = Exits 3 w'
             \<and> sent w' = (sent w)(fd := sent w fd @ c_literal FORBIDDEN_TEXT)"
    if "on_write e fd = Written"
    using that by (simp add: 3 forbidden_exit_eq delivered_fields)
  show ?thesis
    using 4 5 by (simp add: 1 2 t r c)
qed

theorem full_buffer_read_is_forbidden_witness:
  "ci_prefix ''GET '' long_request \<and> length long_request = BUFSIZE
   \<and> (\<exists>w'. web_read long_get 4 (Some calloc_conv) sample_world = Exits 3 w'
          \<and> sent w' = (sent sample_world)(4 := sent sample_world 4 @ c_literal FORBIDDEN_TEXT))"
proof -
  have l: "length long_request = BUFSIZE" by (simp add: long_request_def BUFSIZE_def)
  have g: "ci_prefix ''GET '' long_request"
    by (simp add: long_request_def ci_prefix_Cons_Cons ci_prefix_Nil)
  have p: "pending long_get 4 = Some long_request" by (simp add: long_get_def)
  have o: "on_write long_get 4 = Written" by (simp add: long_get_def)
  show ?thesis
    using full_buffer_read_is_forbidden [OF p, of sample_world "Some calloc_conv"] l g o by simp
qed

subsection \<open>The descriptor sets during a poll cycle\<close>

text \<open>
  What the steps of a poll cycle do to the open descriptors and to the two sets. As long
  as the limit of the process on its descriptors is at most \<^verbatim>\<open>FD_SETSIZE\<close>, every
  descriptor that \<^verbatim>\<open>accept\<close> returns has its bit in the set awaiting read, and the two
  sets stay disjoint.
\<close>

lemma lowest_from_free:
  "lowest_from S lim k = fd \<Longrightarrow> 0 \<le> fd \<Longrightarrow> fd \<notin> S \<and> fd < int lim"
proof (induction S lim k rule: lowest_from.induct)
  case (1 S lim k)
  show ?case
  proof (cases "k < lim \<and> int k \<in> S")
    case True
    then have "lowest_from S lim k = lowest_from S lim (k + 1)" by (subst lowest_from.simps) simp
    then show ?thesis using 1 True by simp
  next
    case False
    then have "lowest_from S lim k = (if k < lim then int k else - 1)"
      by (subst lowest_from.simps) auto
    then show ?thesis using 1(2,3) False by (auto split: if_splits)
  qed
qed

lemma sys_new_fd_fresh:
  "sys_new_fd fails w = (fd, w1) \<Longrightarrow> 0 \<le> fd \<Longrightarrow>
   fd \<notin> open_fds w \<and> open_fds w1 = insert fd (open_fds w) \<and> fd < int (nofile w)"
  using lowest_from_free [of "open_fds w" "nofile w" 0 fd]
  by (auto simp: sys_new_fd_def Let_def split: if_splits)

lemma sys_new_fd_nofile: "sys_new_fd fails w = (fd, w1) \<Longrightarrow> nofile w1 = nofile w"
  by (auto simp: sys_new_fd_def Let_def split: if_splits)

lemma forbidden_exit_never_returns: "forbidden_exit e fd w \<noteq> Returns w1 x"
  by (simp add: forbidden_exit_eq split: write_outcome.splits)

lemma web_read_returns:
  "web_read e fd conv w = Returns w1 c1 \<Longrightarrow> \<exists>b. w1 = w\<lparr>buffer := b\<rparr>"
  by (auto simp: web_read_def Let_def forbidden_exit_never_returns split: prod.splits if_splits)

lemma web_read_open:
  "web_read e fd conv w = Returns w1 c1 \<Longrightarrow> open_fds w1 = open_fds w \<and> nofile w1 = nofile w"
  by (auto dest: web_read_returns)

lemma call_back_world:
  "call_back f conv w = Returns w1 c1 \<Longrightarrow> open_fds w1 = open_fds w \<and> nofile w1 = nofile w"
  by (auto simp: call_back_def split: option.splits)

lemma answer_world:
  assumes "answer cb conv w = Returns w1 c1"
  shows "open_fds w1 = open_fds w \<and> nofile w1 = nofile w"
proof -
  from and_then_returns [OF assms [unfolded answer_def]] obtain w' c' where
    1: "(case cb of None \<Rightarrow> Returns w conv | Some f \<Rightarrow> call_back f conv w) = Returns w' c'"
    and 2: "(if cb = None \<or> assigned False then call_back default_conv_callback c' w' else Returns w' c')
        = Returns w1 c1"
    by blast
  have a: "open_fds w' = open_fds w \<and> nofile w' = nofile w"
    using 1 by (cases cb) (auto dest: call_back_world)
  have b: "open_fds w1 = open_fds w' \<and> nofile w1 = nofile w'"
    using 2 by (auto split: if_splits dest: call_back_world)
  show ?thesis using a b by simp
qed

lemma sys_write_world:
  "sys_write e fd bytes w = Returns w1 n \<Longrightarrow> open_fds w1 = open_fds w \<and> nofile w1 = nofile w"
  by (auto simp: sys_write_def delivered_fields split: write_outcome.splits)

lemma web_write_open:
  assumes "web_write e fd conv w = Returns w1 u"
  shows "open_fds w1 = open_fds w - {fd} \<and> nofile w1 = nofile w"
proof -
  obtain content len where c: "response_content conv = (content, len)"
    by (cases "response_content conv")
  let ?h = "take (strlen (response_head len)) (response_head len)"
  from assms c have "and_then (sys_write e fd ?h w)
        (\<lambda>w1 written1.
           if len > length content then Faults w1
           else and_then (sys_write e fd (take len content) w1)
                  (\<lambda>w2 written. Returns (sys_close fd w2) ())) = Returns w1 u"
    by (simp add: web_write_def)
  from and_then_returns [OF this] obtain wa na where
    1: "sys_write e fd ?h w = Returns wa na"
    and 2: "(if len > length content then Faults wa
           else and_then (sys_write e fd (take len content) wa)
                  (\<lambda>w2 written. Returns (sys_close fd w2) ())) = Returns w1 u"
    by blast
  from 2 have "and_then (sys_write e fd (take len content) wa)
                  (\<lambda>w2 written. Returns (sys_close fd w2) ()) = Returns w1 u"
    by (simp split: if_splits)
  from and_then_returns [OF this] obtain wb nb where
    3: "sys_write e fd (take len content) wa = Returns wb nb" and 4: "w1 = sys_close fd wb"
    by auto
  show ?thesis
    using sys_write_world [OF 1] sys_write_world [OF 3] by (simp add: 4 sys_close_def)
qed

lemma conversation_new_sets:
  "active_read_fd_set (conversation_new ws fd) = active_read_fd_set ws"
  "active_write_fd_set (conversation_new ws fd) = active_write_fd_set ws"
  "quit (conversation_new ws fd) = quit ws"
  "listenfd (conversation_new ws fd) = listenfd ws"
  by (simp_all add: conversation_new_def)

lemma conversation_clear_sets:
  "active_read_fd_set (conversation_clear ws fd) = active_read_fd_set ws"
  "active_write_fd_set (conversation_clear ws fd) = active_write_fd_set ws"
  "quit (conversation_clear ws fd) = quit ws"
  "listenfd (conversation_clear ws fd) = listenfd ws"
  by (simp_all add: conversation_clear_def split: option.splits)

lemma service_accept_nofile:
  "service_accept e i w ws = Returns w1 ws1 \<Longrightarrow> nofile w1 = nofile w"
  by (auto simp: service_accept_def split: prod.splits if_splits option.splits dest: sys_new_fd_nofile)

lemma service_accept_sets:
  assumes "service_accept e i w ws = Returns w1 ws1" and lim: "nofile w \<le> FD_SETSIZE"
  shows "\<exists>fd. fd \<notin> open_fds w \<and> open_fds w1 = insert fd (open_fds w)
           \<and> active_read_fd_set ws1 = insert fd (active_read_fd_set ws)
           \<and> active_write_fd_set ws1 = active_write_fd_set ws"
proof -
  obtain fd w' where n: "sys_new_fd (accept_fails e) w = (fd, w')" by (cases "sys_new_fd (accept_fails e) w")
  have ok: "0 \<le> fd"
    using assms(1) n by (auto simp: service_accept_def split: if_splits)
  from sys_new_fd_fresh [OF n ok] have f: "fd \<notin> open_fds w" "open_fds w' = insert fd (open_fds w)"
    and b: "fd < int FD_SETSIZE" using lim by simp_all
  have s: "FD_SET_read fd (ws\<lparr>hits := hits ws + 1\<rparr>)
      = Some (ws\<lparr>hits := hits ws + 1, active_read_fd_set := insert fd (active_read_fd_set ws)\<rparr>)"
    using ok b by (simp add: FD_SET_read_def)
  have "w1 = w'" and "ws1 = conversation_new
      (ws\<lparr>hits := hits ws + 1, active_read_fd_set := insert fd (active_read_fd_set ws)\<rparr>) fd"
    using assms(1) n ok s by (simp_all add: service_accept_def)
  then show ?thesis using f by (auto simp: conversation_new_sets)
qed

lemma service_request_sets:
  assumes "service_request e i w ws = Returns w1 ws1"
  shows "open_fds w1 = open_fds w \<and> nofile w1 = nofile w
           \<and> active_read_fd_set ws1 = active_read_fd_set ws - {i}
           \<and> active_write_fd_set ws1 = insert i (active_write_fd_set ws)"
proof -
  from and_then_returns [OF assms [unfolded service_request_def]] obtain w' c' where
    r: "web_read e i (conversation ws i) w = Returns w' c'"
    and 1: "and_then (answer (conversation_callback ws) c' w')
            (\<lambda>w2 conv2.
               Returns w2
                 (ws\<lparr>conversation := (conversation ws)(i := conv2),
                     active_read_fd_set := active_read_fd_set ws - {i},
                     active_write_fd_set := insert i (active_write_fd_set ws)\<rparr>)) = Returns w1 ws1"
    by blast
  from and_then_returns [OF 1] obtain w'' c'' where
    a: "answer (conversation_callback ws) c' w' = Returns w'' c''"
    and 2: "w1 = w''" "ws1 = ws\<lparr>conversation := (conversation ws)(i := c''),
                     active_read_fd_set := active_read_fd_set ws - {i},
                     active_write_fd_set := insert i (active_write_fd_set ws)\<rparr>"
    by auto
  show ?thesis using web_read_open [OF r] answer_world [OF a] by (simp add: 2)
qed

lemma service_write_sets:
  assumes "service_write e i w ws = Returns w1 ws1"
  shows "open_fds w1 = open_fds w - {i} \<and> nofile w1 = nofile w
           \<and> active_read_fd_set ws1 = active_read_fd_set ws
           \<and> active_write_fd_set ws1 = active_write_fd_set ws - {i}"
proof -
  from and_then_returns [OF assms [unfolded service_write_def]] obtain w' u where
    r: "web_write e i (conversation ws i) w = Returns w' u"
    and 2: "w1 = w'" "ws1 = conversation_clear (ws\<lparr>active_write_fd_set := active_write_fd_set ws - {i}\<rparr>) i"
    by auto
  show ?thesis using web_write_open [OF r] by (simp add: 2 conversation_clear_sets)
qed

lemma poll_service_parts:
  assumes "poll_service e rs wr i w ws = Returns w1 ws1"
  shows "\<exists>w' ws'.
      (if i \<in> rs
       then (if i = listenfd ws then service_accept e i w ws else service_request e i w ws)
       else Returns w ws) = Returns w' ws'
      \<and> (if i \<in> wr then service_write e i w' ws' else Returns w' ws') = Returns w1 ws1"
  using and_then_returns [OF assms [unfolded poll_service_def]] by blast

lemma poll_service_nofile:
  assumes "poll_service e rs wr i w ws = Returns w1 ws1"
  shows "nofile w1 = nofile w"
proof -
  from poll_service_parts [OF assms] obtain w' ws' where
    r: "(if i \<in> rs
       then (if i = listenfd ws then service_accept e i w ws else service_request e i w ws)
       else Returns w ws) = Returns w' ws'"
    and wr: "(if i \<in> wr then service_write e i w' ws' else Returns w' ws') = Returns w1 ws1"
    by blast
  have "nofile w' = nofile w"
    using r by (auto split: if_splits dest: service_accept_nofile service_request_sets)
  moreover have "nofile w1 = nofile w'"
    using wr by (auto split: if_splits dest: service_write_sets)
  ultimately show ?thesis by simp
qed

lemma trackedI:
  "R \<inter> W = {} \<Longrightarrow> R \<union> W \<subseteq> open_fds w \<Longrightarrow> active_read_fd_set ws = R \<Longrightarrow> active_write_fd_set ws = W \<Longrightarrow>
   tracked w ws"
  by (simp add: tracked_def)

lemma pending_readyI:
  "(\<And>k. k \<in> rs \<Longrightarrow> int i \<le> k \<Longrightarrow> k \<in> active_read_fd_set ws) \<Longrightarrow>
   (\<And>k. k \<in> wr \<Longrightarrow> int j \<le> k \<Longrightarrow> k \<in> active_write_fd_set ws) \<Longrightarrow> pending_ready rs wr i j ws"
  by (simp add: pending_ready_def)

lemma read_step:
  assumes r: "(if int i \<in> rs
            then (if int i = listenfd ws then service_accept e (int i) w ws else service_request e (int i) w ws)
            else Returns w ws) = Returns w1 ws1"
    and t: "tracked w ws" and p: "pending_ready rs wr i i ws" and lim: "nofile w \<le> FD_SETSIZE"
  shows "tracked w1 ws1 \<and> pending_ready rs wr (i + 1) i ws1
         \<and> (int i \<in> wr \<longrightarrow> int i \<notin> active_read_fd_set ws1)"
proof -
  let ?R = "active_read_fd_set ws" and ?W = "active_write_fd_set ws"
  have d: "?R \<inter> ?W = {}" and o: "?R \<union> ?W \<subseteq> open_fds w"
    using t by (simp_all add: tracked_def)
  have pr: "k \<in> ?R" if "k \<in> rs" "int i \<le> k" for k using p that by (simp add: pending_ready_def)
  have pw: "k \<in> ?W" if "k \<in> wr" "int i \<le> k" for k using p that by (simp add: pending_ready_def)
  have nw: "int i \<notin> ?R" if "int i \<in> wr"
  proof -
    have "int i \<in> ?W" using that by (simp add: pw)
    then show ?thesis using d by blast
  qed
  show ?thesis
  proof (cases "int i \<in> rs")
    case False
    then have e: "w1 = w" "ws1 = ws" using r by simp_all
    have "pending_ready rs wr (i + 1) i ws"
      by (rule pending_readyI) (simp_all add: pr pw)
    then show ?thesis using t nw by (simp add: e)
  next
    case True
    show ?thesis
    proof (cases "int i = listenfd ws")
      case True
      with \<open>int i \<in> rs\<close> r have "service_accept e (int i) w ws = Returns w1 ws1" by simp
      from service_accept_sets [OF this lim] obtain fd where
        f: "fd \<notin> open_fds w" and o1: "open_fds w1 = insert fd (open_fds w)"
        and r1: "active_read_fd_set ws1 = insert fd ?R"
        and w1: "active_write_fd_set ws1 = ?W" by blast
      have "fd \<notin> ?W" using f o by blast
      then have 1: "insert fd ?R \<inter> ?W = {}" using d by blast
      have 2: "insert fd ?R \<union> ?W \<subseteq> open_fds w1" using o o1 by blast
      have 3: "tracked w1 ws1" by (rule trackedI [OF 1 2 r1 w1])
      have 4: "pending_ready rs wr (i + 1) i ws1"
        by (rule pending_readyI) (simp_all add: pr pw r1 w1)
      have "int i \<in> ?R" using \<open>int i \<in> rs\<close> by (simp add: pr)
      then have 5: "int i \<in> wr \<longrightarrow> int i \<notin> active_read_fd_set ws1" using nw by blast
      show ?thesis using 3 4 5 by simp
    next
      case False
      with \<open>int i \<in> rs\<close> r have "service_request e (int i) w ws = Returns w1 ws1" by simp
      from service_request_sets [OF this] have
        o1: "open_fds w1 = open_fds w" and r1: "active_read_fd_set ws1 = ?R - {int i}"
        and w1: "active_write_fd_set ws1 = insert (int i) ?W" by simp_all
      have m: "int i \<in> ?R" using \<open>int i \<in> rs\<close> by (simp add: pr)
      have 1: "(?R - {int i}) \<inter> insert (int i) ?W = {}" using d by blast
      have 2: "(?R - {int i}) \<union> insert (int i) ?W \<subseteq> open_fds w1" using o o1 m by blast
      have 3: "tracked w1 ws1" by (rule trackedI [OF 1 2 r1 w1])
      have 4: "pending_ready rs wr (i + 1) i ws1"
        by (rule pending_readyI) (simp_all add: pr pw r1 w1)
      show ?thesis using 3 4 by (simp add: r1)
    qed
  qed
qed

lemma poll_service_inv:
  assumes s: "poll_service e rs wr (int i) w ws = Returns w1 ws1"
    and t: "tracked w ws" and p: "pending_ready rs wr i i ws" and lim: "nofile w \<le> FD_SETSIZE"
  shows "tracked w1 ws1 \<and> pending_ready rs wr (i + 1) (i + 1) ws1"
proof -
  let ?r = "if int i \<in> rs
            then (if int i = listenfd ws then service_accept e (int i) w ws else service_request e (int i) w ws)
            else Returns w ws"
  from poll_service_parts [OF s] obtain w' ws' where r: "?r = Returns w' ws'"
    and wr: "(if int i \<in> wr then service_write e (int i) w' ws' else Returns w' ws') = Returns w1 ws1"
    by blast
  from read_step [OF r t p lim] have t': "tracked w' ws'" and p': "pending_ready rs wr (i + 1) i ws'"
    and nr: "int i \<in> wr \<longrightarrow> int i \<notin> active_read_fd_set ws'" by simp_all
  let ?R = "active_read_fd_set ws'" and ?W = "active_write_fd_set ws'"
  have d: "?R \<inter> ?W = {}" and o: "?R \<union> ?W \<subseteq> open_fds w'"
    using t' by (simp_all add: tracked_def)
  have pr: "k \<in> ?R" if "k \<in> rs" "int (i + 1) \<le> k" for k using p' that by (simp add: pending_ready_def)
  have pw: "k \<in> ?W" if "k \<in> wr" "int i \<le> k" for k using p' that by (simp add: pending_ready_def)
  show ?thesis
  proof (cases "int i \<in> wr")
    case False
    then have e: "w1 = w'" "ws1 = ws'" using wr by simp_all
    have "pending_ready rs wr (i + 1) (i + 1) ws'"
      by (rule pending_readyI) (simp_all add: pr pw)
    then show ?thesis using t' by (simp add: e)
  next
    case True
    then have "service_write e (int i) w' ws' = Returns w1 ws1" using wr by simp
    from service_write_sets [OF this] have
      o1: "open_fds w1 = open_fds w' - {int i}" and r1: "active_read_fd_set ws1 = ?R"
      and w1: "active_write_fd_set ws1 = ?W - {int i}" by simp_all
    have n: "int i \<notin> ?R" using nr True by simp
    have 1: "?R \<inter> (?W - {int i}) = {}" using d by blast
    have 2: "?R \<union> (?W - {int i}) \<subseteq> open_fds w1" using o o1 n by blast
    have 3: "tracked w1 ws1" by (rule trackedI [OF 1 2 r1 w1])
    have 4: "pending_ready rs wr (i + 1) (i + 1) ws1"
      by (rule pending_readyI) (simp_all add: pr pw r1 w1)
    show ?thesis using 3 4 by simp
  qed
qed

lemma poll_scan_inv:
  "poll_scan e rs wr i w ws = Returns w1 ws1 \<Longrightarrow> tracked w ws \<Longrightarrow> pending_ready rs wr i i ws \<Longrightarrow>
   nofile w \<le> FD_SETSIZE \<Longrightarrow> tracked w1 ws1"
proof (induction e rs wr i w ws rule: poll_scan.induct)
  case (1 e rs wr i w ws)
  show ?case
  proof (cases "i < FD_SETSIZE \<and> quit ws \<noteq> True")
    case False
    then have "poll_scan e rs wr i w ws = Returns w ws" by (subst poll_scan.simps) auto
    then show ?thesis using 1 by simp
  next
    case True
    then have u: "poll_scan e rs wr i w ws =
       (case poll_service e rs wr (int i) w ws of
           Returns w' ws' \<Rightarrow> poll_scan e rs wr (i + 1) w' ws'
         | Exits c w' \<Rightarrow> Exits c w'
         | Killed w' \<Rightarrow> Killed w'
         | Faults w' \<Rightarrow> Faults w')"
      by (subst poll_scan.simps) simp
    with 1(2) obtain w' ws' where s: "poll_service e rs wr (int i) w ws = Returns w' ws'"
      and n: "poll_scan e rs wr (i + 1) w' ws' = Returns w1 ws1"
      by (auto split: result.splits)
    from poll_service_inv [OF s 1(3) 1(4) 1(5)] have "tracked w' ws'" "pending_ready rs wr (i + 1) (i + 1) ws'"
      by simp_all
    moreover have "nofile w' \<le> FD_SETSIZE" using poll_service_nofile [OF s] 1(5) by simp
    ultimately show ?thesis using 1(1) [OF True s n] by simp
  qed
qed

lemma poll_scan_nofile:
  "poll_scan e rs wr i w ws = Returns w1 ws1 \<Longrightarrow> nofile w1 = nofile w"
proof (induction e rs wr i w ws rule: poll_scan.induct)
  case (1 e rs wr i w ws)
  show ?case
  proof (cases "i < FD_SETSIZE \<and> quit ws \<noteq> True")
    case False
    then have "poll_scan e rs wr i w ws = Returns w ws" by (subst poll_scan.simps) auto
    then show ?thesis using 1 by simp
  next
    case True
    then have u: "poll_scan e rs wr i w ws =
       (case poll_service e rs wr (int i) w ws of
           Returns w' ws' \<Rightarrow> poll_scan e rs wr (i + 1) w' ws'
         | Exits c w' \<Rightarrow> Exits c w'
         | Killed w' \<Rightarrow> Killed w'
         | Faults w' \<Rightarrow> Faults w')"
      by (subst poll_scan.simps) simp
    with 1(2) obtain w' ws' where s: "poll_service e rs wr (int i) w ws = Returns w' ws'"
      and n: "poll_scan e rs wr (i + 1) w' ws' = Returns w1 ws1"
      by (auto split: result.splits)
    show ?thesis using 1(1) [OF True s n] poll_service_nofile [OF s] by simp
  qed
qed

lemma poll_once_scan:
  "\<exists>rs wr q. poll_once e w ws = poll_scan e rs wr 0 w (ws\<lparr>quit := q\<rparr>)
     \<and> rs \<subseteq> active_read_fd_set ws \<and> wr \<subseteq> active_write_fd_set ws"
proof (cases "select_fails e")
  case True
  then have "poll_once e w ws = poll_scan e {} {} 0 w (ws\<lparr>quit := True\<rparr>)"
    by (simp add: poll_once_def sys_select_def)
  then show ?thesis by blast
next
  case False
  then have "poll_once e w ws =
      poll_scan e (active_read_fd_set ws \<inter> readable e) (active_write_fd_set ws \<inter> writable e) 0 w
        (ws\<lparr>quit := quit ws\<rparr>)"
    by (simp add: poll_once_def sys_select_def)
  moreover have "active_read_fd_set ws \<inter> readable e \<subseteq> active_read_fd_set ws"
    "active_write_fd_set ws \<inter> writable e \<subseteq> active_write_fd_set ws" by blast+
  ultimately show ?thesis by blast
qed

lemma poll_once_nofile:
  assumes "poll_once e w ws = Returns w1 ws1"
  shows "nofile w1 = nofile w"
proof -
  from poll_once_scan [of e w ws] obtain rs wr q where
    "poll_once e w ws = poll_scan e rs wr 0 w (ws\<lparr>quit := q\<rparr>)" by blast
  with assms show ?thesis by (auto dest: poll_scan_nofile)
qed

lemma poll_once_inv:
  assumes "poll_once e w ws = Returns w1 ws1" and t: "tracked w ws" and lim: "nofile w \<le> FD_SETSIZE"
  shows "tracked w1 ws1"
proof -
  from poll_once_scan [of e w ws] obtain rs wr q where
    s: "poll_once e w ws = poll_scan e rs wr 0 w (ws\<lparr>quit := q\<rparr>)"
    and r: "rs \<subseteq> active_read_fd_set ws" and w: "wr \<subseteq> active_write_fd_set ws" by blast
  have a: "poll_scan e rs wr 0 w (ws\<lparr>quit := q\<rparr>) = Returns w1 ws1" using assms(1) s by simp
  have b: "tracked w (ws\<lparr>quit := q\<rparr>)" using t by (simp add: tracked_def)
  have c: "pending_ready rs wr 0 0 (ws\<lparr>quit := q\<rparr>)"
    by (rule pending_readyI) (use r w in auto)
  show ?thesis by (rule poll_scan_inv [OF a b c lim])
qed

lemma check_connect_in_range:
  "0 \<le> fd \<Longrightarrow> fd < int FD_SETSIZE \<Longrightarrow> check_connect fd = Some (server_on fd)"
  by (simp add: check_connect_def FD_SET_read_def calloc_webserve_def server_on_def)

lemma start_server_inv:
  assumes "start_server b port w0 = Returns w ws" and lim: "nofile w \<le> FD_SETSIZE"
  shows "tracked w ws"
proof -
  obtain fd w' where n: "sys_new_fd (socket_fails b) w0 = (fd, w')" by (cases "sys_new_fd (socket_fails b) w0")
  with assms(1) have ok: "0 \<le> fd" and w: "w = w'" and c: "check_connect fd = Some ws"
    by (auto simp: start_server_def split: if_splits option.splits)
  have "nofile w0 = nofile w" using sys_new_fd_nofile [OF n] w by simp
  with sys_new_fd_fresh [OF n ok] lim have f: "open_fds w' = insert fd (open_fds w0)" and b: "fd < int FD_SETSIZE"
    by simp_all
  have "ws = server_on fd" using c check_connect_in_range [OF ok b] by simp
  then show ?thesis using f by (simp add: tracked_def w server_on_def)
qed

lemma reachable_tracked: "reachable w ws \<Longrightarrow> nofile w \<le> FD_SETSIZE \<longrightarrow> tracked w ws"
proof (induction rule: reachable.induct)
  case (start b port w0 w ws)
  then show ?case using start_server_inv by blast
next
  case (poll w ws e w1 ws1)
  then show ?case using poll_once_inv poll_once_nofile by metis
next
  case (timeout w ws usec)
  then show ?case by (simp add: tracked_def set_timeout_usec_def)
next
  case (callback w ws cb)
  then show ?case by (cases cb) (simp_all add: tracked_def set_conv_callback_def)
next
  case (host_opens w ws S)
  then show ?case by (auto simp: tracked_def)
next
  case (host_closes w ws S)
  then show ?case by (auto simp: tracked_def)
qed

subsection \<open>Running a poll cycle\<close>

lemma poll_scan_end: "poll_scan e rs wr FD_SETSIZE w ws = Returns w ws"
  by (subst poll_scan.simps) simp

lemma poll_scan_quit: "quit ws \<Longrightarrow> poll_scan e rs wr i w ws = Returns w ws"
  by (subst poll_scan.simps) simp

lemma poll_scan_step:
  "i < FD_SETSIZE \<Longrightarrow> \<not> quit ws \<Longrightarrow>
   poll_scan e rs wr i w ws =
     (case poll_service e rs wr (int i) w ws of
        Returns w1 ws1 \<Rightarrow> poll_scan e rs wr (i + 1) w1 ws1
      | Exits c w1 \<Rightarrow> Exits c w1
      | Killed w1 \<Rightarrow> Killed w1
      | Faults w1 \<Rightarrow> Faults w1)"
  by (subst poll_scan.simps) simp

lemma poll_service_idle:
  "i \<notin> rs \<Longrightarrow> i \<notin> wr \<Longrightarrow> poll_service e rs wr i w ws = Returns w ws"
  by (simp add: poll_service_def)

lemma poll_scan_skip:
  "(\<And>k. i \<le> k \<Longrightarrow> k < i + n \<Longrightarrow> int k \<notin> rs \<and> int k \<notin> wr) \<Longrightarrow> i + n \<le> FD_SETSIZE \<Longrightarrow>
   poll_scan e rs wr i w ws = poll_scan e rs wr (i + n) w ws"
proof (induction n arbitrary: i)
  case 0
  show ?case by simp
next
  case (Suc n)
  show ?case
  proof (cases "quit ws")
    case True
    then show ?thesis by (simp add: poll_scan_quit)
  next
    case False
    have "int i \<notin> rs \<and> int i \<notin> wr" using Suc.prems(1) [of i] by simp
    then have "poll_scan e rs wr i w ws = poll_scan e rs wr (i + 1) w ws"
      using Suc.prems(2) False by (simp add: poll_scan_step poll_service_idle)
    also have "\<dots> = poll_scan e rs wr (i + 1 + n) w ws"
      using Suc.prems by (intro Suc.IH) simp_all
    finally show ?thesis by simp
  qed
qed

lemma lowest_from_taken:
  "k < lim \<Longrightarrow> int k \<in> S \<Longrightarrow> lowest_from S lim k = lowest_from S lim (Suc k)"
  by (subst lowest_from.simps) simp

lemma lowest_from_here:
  "k < lim \<Longrightarrow> int k \<notin> S \<Longrightarrow> lowest_from S lim k = int k"
  by (subst lowest_from.simps) simp

lemma lowest_from_run:
  "(\<And>j. k + m \<le> j \<Longrightarrow> j < k + m + n \<Longrightarrow> int j \<in> S) \<Longrightarrow> int (k + m + n) \<notin> S \<Longrightarrow> k + m + n < lim \<Longrightarrow>
   lowest_from S lim (k + m) = int (k + m + n)"
proof (induction n arbitrary: m)
  case 0
  then show ?case by (simp add: lowest_from_here)
next
  case (Suc n)
  have "int (k + m) \<in> S" using Suc.prems(1) [of "k + m"] by simp
  then have "lowest_from S lim (k + m) = lowest_from S lim (k + Suc m)"
    using Suc.prems(3) by (simp add: lowest_from_taken)
  also have "\<dots> = int (k + Suc m + n)"
    using Suc.prems by (intro Suc.IH) simp_all
  finally show ?case by simp
qed

lemma lowest_from_first:
  "(\<And>j. j < n \<Longrightarrow> int j \<in> S) \<Longrightarrow> int n \<notin> S \<Longrightarrow> n < lim \<Longrightarrow> lowest_from S lim 0 = int n"
  using lowest_from_run [of 0 0 n S lim] by simp

lemma below_3: "j < 3 \<Longrightarrow> int j \<in> {0, 1, 2}"
  by (cases j rule: nat.exhaust) (auto simp: less_Suc_eq numeral_3_eq_3)

lemma lowest_from_3: "lowest_from {0, 1, 2} 1024 0 = 3"
  using lowest_from_first [of 3 "{0, 1, 2}" 1024] below_3 by simp

lemma lowest_from_4: "lowest_from {3, 0, 1, 2} 1024 0 = 4"
proof -
  have "int j \<in> {3, 0, 1, 2}" if "j < 4" for j
  proof -
    have "j < 3 \<or> j = 3" using that by auto
    then show ?thesis using below_3 [of j] by auto
  qed
  then show ?thesis using lowest_from_first [of 4 "{3, 0, 1, 2}" 1024] by simp
qed

lemma lowest_from_5: "lowest_from {4, 3, 0, 1, 2} 1024 0 = 5"
proof -
  have "int j \<in> {4, 3, 0, 1, 2}" if "j < 5" for j
  proof -
    have "j < 3 \<or> j = 3 \<or> j = 4" using that by auto
    then show ?thesis using below_3 [of j] by auto
  qed
  then show ?thesis using lowest_from_first [of 5 "{4, 3, 0, 1, 2}" 1024] by simp
qed

lemma start_ok: "start_server boot_ok 8080 fresh_world =
   Returns (fresh_world\<lparr>open_fds := {3, 0, 1, 2}, sent := (sent fresh_world)(3 := [])\<rparr>) (server_on 3)"
  by (simp add: start_server_def sys_new_fd_def boot_ok_def fresh_world_def lowest_from_3
      check_connect_in_range FD_SETSIZE_def)

lemma zero_buffer_length: "length zero_buffer = BUFSIZE + 1"
  by (simp add: zero_buffer_def)

lemma delete_short: "0 < length delete_request" "length delete_request < BUFSIZE"
  "\<not> recognized delete_request"
  by (simp_all add: delete_request_def BUFSIZE_def recognized_def ci_prefix_Cons_Cons c_tolower_def)

lemma get_short: "0 < length get_request" "length get_request < BUFSIZE"
  "ci_prefix ''GET '' get_request"
  by (simp_all add: get_request_def BUFSIZE_def ci_prefix_Cons_Cons ci_prefix_Nil c_tolower_def)


lemma web_read_error:
  "pending e fd = None \<Longrightarrow> web_read e fd conv w = forbidden_exit e fd (w\<lparr>buffer := buffer w\<rparr>)"
  by (simp add: web_read_def sys_read_def)

lemma web_read_eof:
  "pending e fd = Some [] \<Longrightarrow> web_read e fd conv w = forbidden_exit e fd (w\<lparr>buffer := buffer w\<rparr>)"
  by (simp add: web_read_def sys_read_def)

lemma web_read_short_bad:
  assumes "pending e fd = Some bs" "0 < length bs" "length bs < BUFSIZE" "length (buffer w) = BUFSIZE + 1"
    and "\<not> recognized bs"
  shows "web_read e fd conv w =
    forbidden_exit e fd (w\<lparr>buffer := map star_crlf bs @ NUL # drop (length bs + 1) (buffer w)\<rparr>)"
  unfolding web_read_short [OF assms(1-4)] Let_def using assms(5) by (simp add: recognized_def)

lemma web_read_fault:
  assumes buf: "length (buffer w) = BUFSIZE + 1"
    and fault: "pending e fd = None \<or> pending e fd = Some [] \<or>
       (\<exists>bs. pending e fd = Some bs \<and> \<not> recognized bs)"
  shows "\<exists>b. web_read e fd conv w = forbidden_exit e fd (w\<lparr>buffer := b\<rparr>)"
proof -
  let ?P = "\<lambda>b. web_read e fd conv w = forbidden_exit e fd (w\<lparr>buffer := b\<rparr>)"
  have eof: "Ex ?P" if "pending e fd = Some []"
    by (rule exI [where P = ?P], rule web_read_eof [OF that])
  from fault show ?thesis
  proof (elim disjE exE conjE)
    assume a: "pending e fd = None"
    show ?thesis by (rule exI [where P = ?P], rule web_read_error [OF a])
  next
    assume "pending e fd = Some []"
    then show ?thesis by (rule eof)
  next
    fix bs
    assume p: "pending e fd = Some bs" and n: "\<not> recognized bs"
    show ?thesis
    proof (cases "bs = []")
      case True
      with p show ?thesis by (simp add: eof)
    next
      case False
      then have pos: "0 < length bs" by simp
      show ?thesis
      proof (cases "length bs < BUFSIZE")
        case True
        show ?thesis by (rule exI [where P = ?P], rule web_read_short_bad [OF p pos True buf n])
      next
        case False
        then have big: "BUFSIZE \<le> length bs" by simp
        show ?thesis by (rule exI [where P = ?P], rule web_read_full [OF p big])
      qed
    qed
  qed
qed

lemma and_then_forbidden_exit: "and_then (forbidden_exit e fd w) f = forbidden_exit e fd w"
  by (simp add: forbidden_exit_eq split: write_outcome.splits)

lemma service_request_fault:
  "web_read e fd (conversation ws fd) w = forbidden_exit e fd w0 \<Longrightarrow>
   service_request e fd w ws = forbidden_exit e fd w0"
  by (simp add: service_request_def and_then_forbidden_exit)

lemma poll_service_fault:
  "i \<in> rs \<Longrightarrow> i \<noteq> listenfd ws \<Longrightarrow> service_request e i w ws = forbidden_exit e i w0 \<Longrightarrow>
   poll_service e rs wr i w ws = forbidden_exit e i w0"
  by (simp add: poll_service_def and_then_forbidden_exit)

lemma poll_scan_fault:
  "i < FD_SETSIZE \<Longrightarrow> \<not> quit ws \<Longrightarrow> poll_service e rs wr (int i) w ws = forbidden_exit e (int i) w0 \<Longrightarrow>
   poll_scan e rs wr i w ws = forbidden_exit e (int i) w0"
  by (simp add: poll_scan_step forbidden_exit_eq split: write_outcome.splits)

lemma accept_only:
  assumes q: "\<not> quit ws" and l: "listenfd ws = int n" "n < FD_SETSIZE"
    and r: "active_read_fd_set ws \<inter> readable e = {int n}"
    and wr: "active_write_fd_set ws \<inter> writable e = {}"
    and s: "\<not> select_fails e" and a: "\<not> accept_fails e"
    and fd: "lowest_from (open_fds w) (nofile w) 0 = fd" "0 \<le> fd"
    and set: "FD_SET_read fd (ws\<lparr>hits := hits ws + 1\<rparr>) = Some ws1"
  shows "poll_once e w ws =
     Returns (w\<lparr>open_fds := insert fd (open_fds w), sent := (sent w)(fd := [])\<rparr>)
       (conversation_new ws1 fd)"
proof -
  let ?w1 = "w\<lparr>open_fds := insert fd (open_fds w), sent := (sent w)(fd := [])\<rparr>"
  let ?ws1 = "conversation_new ws1 fd"
  have sel: "sys_select e (active_read_fd_set ws) (active_write_fd_set ws) = Some ({int n}, {})"
    using s r wr by (simp add: sys_select_def)
  have acc: "service_accept e (int n) w ws = Returns ?w1 ?ws1"
    using a fd set by (simp add: service_accept_def sys_new_fd_def)
  have srv: "poll_service e {int n} {} (int n) w ws = Returns ?w1 ?ws1"
    using acc l(1) by (simp add: poll_service_def)
  have "poll_scan e {int n} {} 0 w ws = poll_scan e {int n} {} (0 + n) w ws"
    using l(2) by (intro poll_scan_skip) auto
  also have "\<dots> = poll_scan e {int n} {} (n + 1) ?w1 ?ws1"
    using q srv l(2) by (simp add: poll_scan_step)
  also have "\<dots> = poll_scan e {int n} {} (n + 1 + (FD_SETSIZE - (n + 1))) ?w1 ?ws1"
    using l(2) by (intro poll_scan_skip) auto
  also have "\<dots> = Returns ?w1 ?ws1"
    using l(2) by (simp add: poll_scan_end)
  finally show ?thesis by (simp add: poll_once_def sel)
qed

lemma accept_cycle:
  "poll_once one_connects
     (fresh_world\<lparr>open_fds := {3, 0, 1, 2}, sent := (sent fresh_world)(3 := [])\<rparr>) (server_on 3) =
   Returns (fresh_world\<lparr>open_fds := {4, 3, 0, 1, 2}, sent := (sent fresh_world)(3 := [], 4 := [])\<rparr>)
     (conversation_new ((server_on 3)\<lparr>hits := 1, active_read_fd_set := {4, 3}\<rparr>) 4)"
  using accept_only [of "server_on 3" 3 one_connects
      "fresh_world\<lparr>open_fds := {3, 0, 1, 2}, sent := (sent fresh_world)(3 := [])\<rparr>" 4
      "(server_on 3)\<lparr>hits := 1, active_read_fd_set := {4, 3}\<rparr>"]
  by (simp add: server_on_def one_connects_def FD_SETSIZE_def lowest_from_4 fresh_world_def FD_SET_read_def)

lemma second_accept_cycle:
  "poll_once one_connects
     (fresh_world\<lparr>open_fds := {4, 3, 0, 1, 2}, sent := (sent fresh_world)(3 := [], 4 := [])\<rparr>)
     (conversation_new ((server_on 3)\<lparr>hits := 1, active_read_fd_set := {4, 3}\<rparr>) 4) =
   Returns sample_world two_clients"
proof -
  let ?w = "fresh_world\<lparr>open_fds := {4, 3, 0, 1, 2}, sent := (sent fresh_world)(3 := [], 4 := [])\<rparr>"
  let ?ws = "conversation_new ((server_on 3)\<lparr>hits := 1, active_read_fd_set := {4, 3}\<rparr>) 4"
  let ?ws1 = "?ws\<lparr>hits := hits ?ws + 1, active_read_fd_set := insert 5 (active_read_fd_set ?ws)\<rparr>"
  have "poll_once one_connects ?w ?ws =
     Returns (?w\<lparr>open_fds := insert 5 (open_fds ?w), sent := (sent ?w)(5 := [])\<rparr>)
       (conversation_new ?ws1 5)"
    by (rule accept_only [where n = 3])
       (simp_all add: conversation_new_def server_on_def one_connects_def FD_SETSIZE_def lowest_from_5
          fresh_world_def FD_SET_read_def)
  moreover have "?w\<lparr>open_fds := insert 5 (open_fds ?w), sent := (sent ?w)(5 := [])\<rparr> = sample_world"
    by (auto simp: sample_world_def fresh_world_def)
  moreover have "conversation_new ?ws1 5 = two_clients"
    by (auto simp: two_clients_def conversation_new_def server_on_def FD_SETSIZE_def fun_eq_iff)
  ultimately show ?thesis by simp
qed

lemma two_clients_reachable: "reachable sample_world two_clients"
proof -
  have r0: "reachable (fresh_world\<lparr>open_fds := {3, 0, 1, 2}, sent := (sent fresh_world)(3 := [])\<rparr>) (server_on 3)"
    by (rule reachable.start [OF start_ok])
  have r1: "reachable (fresh_world\<lparr>open_fds := {4, 3, 0, 1, 2}, sent := (sent fresh_world)(3 := [], 4 := [])\<rparr>)
     (conversation_new ((server_on 3)\<lparr>hits := 1, active_read_fd_set := {4, 3}\<rparr>) 4)"
    by (rule reachable.poll [OF r0 accept_cycle])
  show ?thesis by (rule reachable.poll [OF r1 second_accept_cycle])
qed

subsection \<open>Claims about faults\<close>

text \<open>
  Claim C1, as the code has it. When the read on a data descriptor fails or returns no
  bytes, or the method of the request is not in the table, \<open>web_read\<close> calls
  \<open>forbidden\<close> and then \<^verbatim>\<open>exit(3)\<close>: the process ends, with status 3, or by
  \<^verbatim>\<open>SIGPIPE\<close> when the client is gone. No callback is called, no descriptor is closed,
  the client receives the fixed 403 document when it takes the write, and the scan of the
  poll cycle ends there: no later descriptor is served.
\<close>

theorem forbidden_fault_exits_process:
  assumes buf: "length (buffer w) = BUFSIZE + 1"
    and fault: "pending e fd = None \<or> pending e fd = Some [] \<or>
       (\<exists>bs. pending e fd = Some bs \<and> \<not> recognized bs)"
  shows "\<exists>w'. web_read e fd (conversation ws fd) w = (if on_write e fd = Sigpipe then Killed w' else Exits 3 w')
           \<and> service_request e fd w ws = (if on_write e fd = Sigpipe then Killed w' else Exits 3 w')
           \<and> invoked w' = invoked w
           \<and> open_fds w' = open_fds w
           \<and> (on_write e fd = Written \<longrightarrow>
                (\<exists>rest. sent w' = (sent w)(fd := sent w fd @ FORBIDDEN_TEXT @ rest)))
           \<and> (fd \<in> rs \<and> fd \<noteq> listenfd ws \<and> fd = int i \<and> i < FD_SETSIZE \<and> \<not> quit ws \<longrightarrow>
                poll_service e rs wr fd w ws = (if on_write e fd = Sigpipe then Killed w' else Exits 3 w')
                \<and> poll_scan e rs wr i w ws = (if on_write e fd = Sigpipe then Killed w' else Exits 3 w'))"
proof -
  from web_read_fault [OF buf fault, of "conversation ws fd"] obtain b where
    r: "web_read e fd (conversation ws fd) w = forbidden_exit e fd (w\<lparr>buffer := b\<rparr>)" by blast
  let ?u = "w\<lparr>buffer := b\<rparr>"
  let ?w = "case on_write e fd of Written \<Rightarrow> delivered fd (c_literal FORBIDDEN_TEXT) ?u
              | Written_Part n \<Rightarrow> delivered fd (take n (c_literal FORBIDDEN_TEXT)) ?u
              | Write_Fails \<Rightarrow> ?u | Sigpipe \<Rightarrow> ?u"
  let ?end = "if on_write e fd = Sigpipe then Killed ?w else Exits 3 ?w"
  have x: "forbidden_exit e fd ?u = ?end"
    by (simp add: forbidden_exit_eq split: write_outcome.splits)
  have 1: "web_read e fd (conversation ws fd) w = ?end" using r x by simp
  have s: "service_request e fd w ws = forbidden_exit e fd ?u" by (rule service_request_fault [OF r])
  then have 2: "service_request e fd w ws = ?end" using x by simp
  have 3: "invoked ?w = invoked w" by (simp add: delivered_fields split: write_outcome.splits)
  have 4: "open_fds ?w = open_fds w" by (simp add: delivered_fields split: write_outcome.splits)
  have 5: "\<exists>rest. sent ?w = (sent w)(fd := sent w fd @ FORBIDDEN_TEXT @ rest)" if "on_write e fd = Written"
  proof -
    have "sent ?w = (sent w)(fd := sent w fd @ FORBIDDEN_TEXT @ [NUL])"
      using that by (simp add: delivered_fields c_literal_def)
    then show ?thesis by (rule exI [where P = "\<lambda>rest. sent ?w = (sent w)(fd := sent w fd @ FORBIDDEN_TEXT @ rest)"])
  qed
  have 6: "poll_service e rs wr fd w ws = ?end \<and> poll_scan e rs wr i w ws = ?end"
    if "fd \<in> rs \<and> fd \<noteq> listenfd ws \<and> fd = int i \<and> i < FD_SETSIZE \<and> \<not> quit ws"
  proof -
    have m: "fd \<in> rs" and n: "fd \<noteq> listenfd ws" and i: "fd = int i" "i < FD_SETSIZE" and q: "\<not> quit ws"
      using that by blast+
    have a: "poll_service e rs wr fd w ws = forbidden_exit e fd ?u"
      by (rule poll_service_fault [OF m n s])
    have "poll_scan e rs wr i w ws = forbidden_exit e (int i) ?u"
      by (rule poll_scan_fault [OF i(2) q]) (use a i(1) in simp)
    then show ?thesis using a x i(1) by simp
  qed
  show ?thesis
    by (rule exI [where x = ?w]) (use 1 2 3 4 5 6 in blast)
qed

lemma delete_read:
  "web_read delete_then_get 4 (conversation two_clients 4) sample_world =
   Exits 3 (delivered 4 (c_literal FORBIDDEN_TEXT)
     (sample_world\<lparr>buffer := map star_crlf delete_request @ NUL # drop (length delete_request + 1) zero_buffer\<rparr>))"
proof -
  have p: "pending delete_then_get 4 = Some delete_request" by (simp add: delete_then_get_def)
  have b: "length (buffer sample_world) = BUFSIZE + 1" by (simp add: sample_world_def zero_buffer_length)
  have o: "on_write delete_then_get 4 = Written" by (simp add: delete_then_get_def)
  have "buffer sample_world = zero_buffer" by (simp add: sample_world_def)
  with web_read_short_bad [OF p delete_short(1,2) b delete_short(3), of "conversation two_clients 4"]
  show ?thesis by (simp add: forbidden_exit_eq o)
qed

theorem forbidden_fault_exits_process_witness:
  "\<exists>w'. web_read delete_then_get 4 (conversation two_clients 4) sample_world = Exits 3 w'
     \<and> service_request delete_then_get 4 sample_world two_clients = Exits 3 w'
     \<and> invoked w' = invoked sample_world
     \<and> open_fds w' = open_fds sample_world
     \<and> (\<exists>rest. sent w' = (sent sample_world)(4 := sent sample_world 4 @ FORBIDDEN_TEXT @ rest))
     \<and> poll_service delete_then_get {4, 5} {} 4 sample_world two_clients = Exits 3 w'
     \<and> poll_scan delete_then_get {4, 5} {} 4 sample_world two_clients = Exits 3 w'"
proof -
  have b: "length (buffer sample_world) = BUFSIZE + 1" by (simp add: sample_world_def zero_buffer_length)
  have f: "pending delete_then_get 4 = None \<or> pending delete_then_get 4 = Some [] \<or>
       (\<exists>bs. pending delete_then_get 4 = Some bs \<and> \<not> recognized bs)"
    using delete_short(3) by (simp add: delete_then_get_def)
  have o: "on_write delete_then_get 4 = Written"
    by (simp add: delete_then_get_def)
  have c: "(Written = Sigpipe) = False" by simp
  have h: "((4::int) \<in> {4, 5} \<and> 4 \<noteq> listenfd two_clients \<and> (4::int) = int 4 \<and> 4 < FD_SETSIZE
       \<and> \<not> quit two_clients) = True"
    by (simp add: two_clients_def FD_SETSIZE_def)
  show ?thesis
    by (rule forbidden_fault_exits_process [OF b f, of two_clients "{4, 5}" 4 "{}",
          unfolded o h c if_False simp_thms])
qed

text \<open>
  Claim C1, as it is stated, fails: in the state reached by a start and two cycles that
  accept a client each, a cycle in which the first client sends a DELETE request ends the
  process, and the second client, whose GET request is pending, receives nothing.
\<close>

theorem forbidden_fault_is_fatal:
  "poll_once delete_then_get sample_world two_clients =
     Exits 3 (delivered 4 (c_literal FORBIDDEN_TEXT)
       (sample_world\<lparr>buffer := map star_crlf delete_request @ NUL # drop (length delete_request + 1) zero_buffer\<rparr>))
   \<and> reachable sample_world two_clients
   \<and> 5 \<in> active_read_fd_set two_clients \<inter> readable delete_then_get
   \<and> pending delete_then_get 5 = Some get_request
   \<and> sent (delivered 4 (c_literal FORBIDDEN_TEXT)
       (sample_world\<lparr>buffer := map star_crlf delete_request @ NUL # drop (length delete_request + 1) zero_buffer\<rparr>)) 5 = []"
proof -
  let ?u = "sample_world\<lparr>buffer := map star_crlf delete_request @ NUL # drop (length delete_request + 1) zero_buffer\<rparr>"
  let ?w = "delivered 4 (c_literal FORBIDDEN_TEXT) ?u"
  have sel: "sys_select delete_then_get (active_read_fd_set two_clients) (active_write_fd_set two_clients)
      = Some ({4, 5}, {})"
    by (auto simp: sys_select_def delete_then_get_def two_clients_def)
  have q: "\<not> quit two_clients" and l: "(4::int) \<noteq> listenfd two_clients" by (simp_all add: two_clients_def)
  have o: "on_write delete_then_get 4 = Written" by (simp add: delete_then_get_def)
  have x: "forbidden_exit delete_then_get 4 ?u = Exits 3 ?w" by (simp add: forbidden_exit_eq o)
  have "poll_scan delete_then_get {4, 5} {} 0 sample_world two_clients
      = poll_scan delete_then_get {4, 5} {} (0 + 4) sample_world two_clients"
    by (rule poll_scan_skip) (auto simp: FD_SETSIZE_def)
  also have "\<dots> = Exits 3 ?w"
  proof -
    have "service_request delete_then_get 4 sample_world two_clients = forbidden_exit delete_then_get 4 ?u"
      by (rule service_request_fault) (simp only: delete_read x)
    then have "poll_service delete_then_get {4, 5} {} (int 4) sample_world two_clients
        = forbidden_exit delete_then_get (int 4) ?u"
      using l by (simp add: poll_service_fault)
    then have "poll_scan delete_then_get {4, 5} {} 4 sample_world two_clients
        = forbidden_exit delete_then_get (int 4) ?u"
      using q by (intro poll_scan_fault) (simp_all add: FD_SETSIZE_def)
    then show ?thesis using x by simp
  qed
  finally have 1: "poll_once delete_then_get sample_world two_clients = Exits 3 ?w"
    by (simp add: poll_once_def sel)
  have 2: "sent ?w 5 = []" by (simp add: delivered_fields sample_world_def)
  have 3: "5 \<in> active_read_fd_set two_clients \<inter> readable delete_then_get"
    by (simp add: two_clients_def delete_then_get_def)
  have 4: "pending delete_then_get 5 = Some get_request" by (simp add: delete_then_get_def)
  show ?thesis using 1 2 3 4 two_clients_reachable by simp
qed

subsection \<open>Claim about the descriptor sets\<close>

lemma below_crowd: "j < 1027 \<Longrightarrow> int j \<in> insert 3 ({0, 1, 2} \<union> crowd)"
proof -
  assume "j < 1027"
  then have "j < 3 \<or> j = 3 \<or> (4 \<le> int j \<and> int j \<le> 1026)" by auto
  then show ?thesis using below_3 [of j] by (auto simp: crowd_def)
qed

lemma lowest_from_crowd: "lowest_from ({0, 1, 2} \<union> crowd) 4096 0 = 3"
proof -
  have "int 3 \<notin> {0, 1, 2} \<union> crowd" by (simp add: crowd_def)
  moreover have "(3::nat) < 4096" by simp
  moreover have "int j \<in> {0, 1, 2} \<union> crowd" if "j < 3" for j using below_3 [OF that] by blast
  ultimately have "lowest_from ({0, 1, 2} \<union> crowd) 4096 0 = int 3"
    by (rule lowest_from_first [rotated])
  then show ?thesis by simp
qed

lemma lowest_from_1027: "lowest_from (insert 3 ({0, 1, 2} \<union> crowd)) 4096 0 = 1027"
proof -
  have "int 1027 \<notin> insert 3 ({0, 1, 2} \<union> crowd)" by (simp add: crowd_def)
  moreover have "(1027::nat) < 4096" by simp
  ultimately have "lowest_from (insert 3 ({0, 1, 2} \<union> crowd)) 4096 0 = int 1027"
    using below_crowd by (rule lowest_from_first [rotated])
  then show ?thesis by simp
qed

lemma crowded_start:
  "start_server boot_ok 8080 crowded_world = Returns crowded_listening (server_on 3)"
proof -
  have f: "lowest_from (open_fds crowded_world) (nofile crowded_world) 0 = 3"
    by (simp only: crowded_world_def world.simps lowest_from_crowd)
  have c: "check_connect 3 = Some (server_on 3)"
    by (simp add: check_connect_in_range FD_SETSIZE_def)
  show ?thesis
    by (simp add: start_server_def sys_new_fd_def Let_def f c boot_ok_def crowded_listening_def)
qed

text \<open>
  Claim C7 does not hold of the code. Line 360 calls \<^verbatim>\<open>FD_SET\<close> on the descriptor that
  \<^verbatim>\<open>accept\<close> returns without testing it against \<^verbatim>\<open>FD_SETSIZE\<close>, as
  \<open>conversation_new\<close> does in line 394. In a process that may have more than
  \<^verbatim>\<open>FD_SETSIZE\<close> descriptors and whose host holds the descriptors 4 to 1026, the
  server starts on descriptor 3, and in its first poll cycle it accepts a client on
  descriptor 1027; the bit that is set is bit 3 of the set awaiting write, which lies behind
  the set awaiting read, and the listening descriptor is in both sets.
\<close>

theorem accepted_descriptor_beyond_the_set:
  "start_server boot_ok 8080 crowded_world = Returns crowded_listening (server_on 3)
   \<and> poll_once one_connects crowded_listening (server_on 3) =
       Returns (crowded_listening\<lparr>open_fds := insert 1027 (open_fds crowded_listening),
                                  sent := (sent crowded_listening)(1027 := [])\<rparr>)
         ((server_on 3)\<lparr>hits := 1, active_write_fd_set := {3}\<rparr>)
   \<and> reachable (crowded_listening\<lparr>open_fds := insert 1027 (open_fds crowded_listening),
                                  sent := (sent crowded_listening)(1027 := [])\<rparr>)
         ((server_on 3)\<lparr>hits := 1, active_write_fd_set := {3}\<rparr>)
   \<and> 3 \<in> active_read_fd_set ((server_on 3)\<lparr>hits := 1, active_write_fd_set := {3}\<rparr>)
   \<and> 3 \<in> active_write_fd_set ((server_on 3)\<lparr>hits := 1, active_write_fd_set := {3}\<rparr>)"
proof -
  let ?w1 = "crowded_listening\<lparr>open_fds := insert 1027 (open_fds crowded_listening),
                                  sent := (sent crowded_listening)(1027 := [])\<rparr>"
  let ?ws1 = "(server_on 3)\<lparr>hits := 1, active_write_fd_set := {3}\<rparr>"
  have r: "reachable crowded_listening (server_on 3)"
    by (rule reachable.start [OF crowded_start])
  have "open_fds crowded_listening = insert 3 ({0, 1, 2} \<union> crowd)" and "nofile crowded_listening = 4096"
    by (simp_all add: crowded_listening_def crowded_world_def)
  then have f: "lowest_from (open_fds crowded_listening) (nofile crowded_listening) 0 = 1027"
    by (simp only: lowest_from_1027)
  have s: "FD_SET_read 1027 ((server_on 3)\<lparr>hits := hits (server_on 3) + 1\<rparr>) = Some ?ws1"
    by (simp add: FD_SET_read_def FD_SETSIZE_def server_on_def)
  have n: "conversation_new ?ws1 1027 = ?ws1"
    by (simp add: conversation_new_def FD_SETSIZE_def)
  have "poll_once one_connects crowded_listening (server_on 3) = Returns ?w1 (conversation_new ?ws1 1027)"
    by (rule accept_only [where n = 3, OF _ _ _ _ _ _ _ f _ s])
       (simp_all add: server_on_def one_connects_def FD_SETSIZE_def)
  then have 1: "poll_once one_connects crowded_listening (server_on 3) = Returns ?w1 ?ws1"
    by (simp only: n)
  have 2: "reachable ?w1 ?ws1" by (rule reachable.poll [OF r 1])
  have 3: "3 \<in> active_read_fd_set ?ws1" "3 \<in> active_write_fd_set ?ws1"
    by (simp_all add: server_on_def)
  show ?thesis using crowded_start 1 2 3 by simp
qed

text \<open>
  With a limit of at most \<^verbatim>\<open>FD_SETSIZE\<close> descriptors the two sets share no descriptor
  in any state the server reaches.
\<close>

lemma sets_disjoint_within_limit:
  "reachable w ws \<Longrightarrow> nofile w \<le> FD_SETSIZE \<Longrightarrow>
   \<not> (fd \<in> active_read_fd_set ws \<and> fd \<in> active_write_fd_set ws)"
proof -
  assume "reachable w ws" and "nofile w \<le> FD_SETSIZE"
  then have "tracked w ws" using reachable_tracked by blast
  then have "active_read_fd_set ws \<inter> active_write_fd_set ws = {}" by (simp add: tracked_def)
  then show ?thesis by blast
qed

subsection \<open>The callback and its default\<close>


lemma answer_unregistered:
  "answer None (Some c) w =
     Returns (w\<lparr>invoked := invoked w @ [c]\<rparr>) (Some (fst (default_conv_callback c)))"
  by (simp add: answer_def call_back_def)

lemma default_response:
  "fst (default_conv_callback c) = c\<lparr>response := Some (''Okay'' @ [LF, NUL]), response_size := 6\<rparr>"
  by (simp add: default_conv_callback_def strncpy_def c_literal_def RESPONSE_CONTENT_def
      RESPONSE_LENGTH_def c_sizeof_def LF_def NUL_def)


subsection \<open>Starting the server\<close>

lemma start_server_returns:
  "start_server b port w = Returns w1 ws \<longleftrightarrow>
     \<not> socket_fails b \<and> 0 \<le> lowest_from (open_fds w) (nofile w) 0 \<and> 0 \<le> port \<and> port \<le> 60000
     \<and> \<not> bind_fails b \<and> \<not> listen_fails b
     \<and> w1 = w\<lparr>open_fds := insert (lowest_from (open_fds w) (nofile w) 0) (open_fds w),
              sent := (sent w)(lowest_from (open_fds w) (nofile w) 0 := [])\<rparr>
     \<and> check_connect (lowest_from (open_fds w) (nofile w) 0) = Some ws"
  by (auto simp: start_server_def sys_new_fd_def Let_def split: option.splits)

lemma start_server_listens:
  "start_server b port w = Returns w1 ws \<Longrightarrow> nofile w \<le> FD_SETSIZE \<Longrightarrow>
   listenfd ws \<in> active_read_fd_set ws"
proof -
  assume s: "start_server b port w = Returns w1 ws" and lim: "nofile w \<le> FD_SETSIZE"
  let ?fd = "lowest_from (open_fds w) (nofile w) 0"
  have ok: "0 \<le> ?fd" and c: "check_connect ?fd = Some ws" using s by (simp_all add: start_server_returns)
  have "?fd < int (nofile w)" using lowest_from_free [OF refl ok] by simp
  then have "?fd < int FD_SETSIZE" using lim by simp
  then have "ws = server_on ?fd" using c check_connect_in_range [OF ok] by simp
  then show ?thesis by (simp add: server_on_def)
qed

text \<open>
  Claim C4 does not hold of the code at port 0. The test of line 256 is
  \<^verbatim>\<open>port < 0 || port > 60000\<close>, so port 0 passes it, though the message of line 257
  gives the range as 1 to 60000: with no system call failing, \<open>start_server\<close> returns a
  server for port 0, its listening descriptor awaiting read.
\<close>

theorem port_zero_is_accepted:
  "start_server boot_ok 0 fresh_world =
     Returns (fresh_world\<lparr>open_fds := {3, 0, 1, 2}, sent := (sent fresh_world)(3 := [])\<rparr>) (server_on 3)
   \<and> check_connect 3 = Some (server_on 3)
   \<and> listenfd (server_on 3) \<in> active_read_fd_set (server_on 3)"
  by (simp add: start_server_def sys_new_fd_def boot_ok_def fresh_world_def lowest_from_3
      check_connect_in_range FD_SETSIZE_def)
     (simp add: server_on_def)

subsection \<open>The response\<close>

lemma digit_not_NUL: "d < 10 \<Longrightarrow> digit d \<noteq> NUL"
proof -
  assume "d < 10"
  then have "d \<in> {0, 1, 2, 3, 4, 5, 6, 7, 8, 9}" by auto
  then show ?thesis by (auto simp: digit_def NUL_def)
qed

lemma decimal_not_NUL: "NUL \<notin> set (decimal n)"
proof (induction n rule: decimal.induct)
  case (1 n)
  show ?case
  proof (cases "n < 10")
    case True
    then show ?thesis using digit_not_NUL [of n] by (subst decimal.simps) auto
  next
    case False
    have "n mod 10 < 10" by simp
    then have "digit (n mod 10) \<noteq> NUL" by (rule digit_not_NUL)
    then show ?thesis using False 1 by (subst decimal.simps) simp
  qed
qed

lemma strlen_all: "NUL \<notin> set s \<Longrightarrow> strlen s = length s"
  unfolding strlen_def by (induction s) auto

lemma strlen_response_head: "strlen (response_head n) = length (response_head n)"
proof (rule strlen_all)
  have "NUL \<notin> set (decimal VERSION)" "NUL \<notin> set (decimal n)" by (rule decimal_not_NUL)+
  then show "NUL \<notin> set (response_head n)"
    by (simp add: response_head_def RESPONSE_TYPE_def NUL_def LF_def)
qed

lemma web_write_sends:
  "response_content conv = (content, len) \<Longrightarrow> len \<le> length content \<Longrightarrow> on_write e fd = Written \<Longrightarrow>
   web_write e fd conv w =
     Returns (sys_close fd (delivered fd (take len content) (delivered fd (response_head len) w))) ()"
  by (simp add: web_write_def sys_write_def strlen_response_head)

lemma web_write_content_length:
  assumes "response_content conv = (content, len)" "len \<le> length content" "on_write e fd = Written"
  shows "\<exists>w1. web_write e fd conv w = Returns w1 ()
           \<and> sent w1 fd = sent w fd @ response_head len @ take len content
           \<and> length (take len content) = len
           \<and> open_fds w1 = open_fds w - {fd}"
  by (simp add: web_write_sends [OF assms] sys_close_def delivered_def assms(2))

lemma web_write_sigpipe:
  "on_write e fd = Sigpipe \<Longrightarrow> web_write e fd conv w = Killed w"
  by (simp add: web_write_def sys_write_def split: prod.splits)

lemma decimal_6: "decimal 6 = ''6''"
  by (simp add: decimal.simps [of 6] digit_def)

lemma decimal_23: "decimal 23 = ''23''"
  by (simp add: decimal.simps [of 23] decimal.simps [of 2] digit_def)

lemma response_head_6:
  "response_head 6 =
     ''HTTP/1.1 200 OK'' @ [LF] @ ''Server: nweb/23.0'' @ [LF] @ ''Content-Length: 6'' @ [LF] @
     ''Connection: close'' @ [LF] @ ''Content-Type: text/html'' @ [LF, LF]"
  by (simp add: response_head_def decimal_6 decimal_23 VERSION_def RESPONSE_TYPE_def)

text \<open>
  Claim C5 does not hold of the code for the default payload. \<^verbatim>\<open>RESPONSE_LENGTH\<close> is
  \<^verbatim>\<open>sizeof(RESPONSE_CONTENT)\<close>, which counts the terminating zero byte of the literal:
  the default callback stores six bytes, the header announces \<open>Content-Length: 6\<close>, and
  the six bytes written are \<open>Okay\<close>, a line feed and a zero byte. The descriptor is
  closed after the two writes.
\<close>

theorem default_payload_ends_with_zero_byte:
  "web_write writes_4 4 (Some (fst (default_conv_callback calloc_conv))) sample_world =
     Returns (sys_close 4 (delivered 4 (''Okay'' @ [LF, NUL]) (delivered 4 (response_head 6) sample_world))) ()
   \<and> sent (sys_close 4 (delivered 4 (''Okay'' @ [LF, NUL]) (delivered 4 (response_head 6) sample_world))) 4
       = response_head 6 @ ''Okay'' @ [LF, NUL]
   \<and> response_head 6 =
       ''HTTP/1.1 200 OK'' @ [LF] @ ''Server: nweb/23.0'' @ [LF] @ ''Content-Length: 6'' @ [LF] @
       ''Connection: close'' @ [LF] @ ''Content-Type: text/html'' @ [LF, LF]
   \<and> length (''Okay'' @ [LF, NUL]) = 6
   \<and> ''Okay'' @ [LF, NUL] \<noteq> ''Okay'' @ [LF]
   \<and> 4 \<notin> open_fds (sys_close 4 (delivered 4 (''Okay'' @ [LF, NUL]) (delivered 4 (response_head 6) sample_world)))"
proof -
  have c: "response_content (Some (fst (default_conv_callback calloc_conv))) = (''Okay'' @ [LF, NUL], 6)"
    by (simp add: response_content_def default_response)
  have l: "6 \<le> length (''Okay'' @ [LF, NUL])" by simp
  have o: "on_write writes_4 4 = Written" by (simp add: writes_4_def)
  have 1: "web_write writes_4 4 (Some (fst (default_conv_callback calloc_conv))) sample_world =
     Returns (sys_close 4 (delivered 4 (''Okay'' @ [LF, NUL]) (delivered 4 (response_head 6) sample_world))) ()"
    using web_write_sends [OF c l o, of sample_world] by simp
  have 2: "sent (sys_close 4 (delivered 4 (''Okay'' @ [LF, NUL]) (delivered 4 (response_head 6) sample_world))) 4
       = response_head 6 @ ''Okay'' @ [LF, NUL]"
    by (simp add: sys_close_def delivered_def sample_world_def)
  have 3: "4 \<notin> open_fds (sys_close 4 (delivered 4 (''Okay'' @ [LF, NUL]) (delivered 4 (response_head 6) sample_world)))"
    by (simp add: sys_close_def)
  show ?thesis using 1 2 3 response_head_6 by simp
qed

subsection \<open>The table of conversations\<close>

text \<open>
  Claim C8 does not hold of the code at descriptor 0. \<open>conversation_clear\<close> tests
  \<^verbatim>\<open>fd > 0\<close> where \<open>conversation_new\<close> tests \<^verbatim>\<open>fd >= 0\<close>: a conversation created
  for descriptor 0 stays in its slot when it is released, while one of descriptor 4 is
  removed.
\<close>

theorem release_skips_descriptor_zero:
  "conversation_clear ws 0 = ws
   \<and> check_connect 3 = Some (server_on 3)
   \<and> conversation (conversation_new (server_on 3) 0) 0 = Some (calloc_conv\<lparr>hit := 0, type := RESPONSE_ERROR\<rparr>)
   \<and> conversation (conversation_clear (conversation_new (server_on 3) 0) 0) 0
       = Some (calloc_conv\<lparr>hit := 0, type := RESPONSE_ERROR\<rparr>)
   \<and> conversation (conversation_clear two_clients 4) 4 = None"
  by (simp add: check_connect_in_range FD_SETSIZE_def)
     (simp add: conversation_clear_def conversation_new_def server_on_def two_clients_def FD_SETSIZE_def)

text \<open>
  Claim C9 does not hold of the code for the result code. \<open>conversation_new\<close> stores
  \<^verbatim>\<open>RESPONSE_ERROR\<close> in the field \<open>type\<close>, the kind of the request; the field
  \<open>response_code\<close> keeps the zero of \<^verbatim>\<open>calloc\<close>. The sequence number is the hit
  count.
\<close>

theorem create_sets_type_not_response_code:
  "conversation (conversation_new two_clients 4) 4 = Some (calloc_conv\<lparr>hit := 2, type := RESPONSE_ERROR\<rparr>)
   \<and> hit (calloc_conv\<lparr>hit := 2, type := RESPONSE_ERROR\<rparr>) = hits two_clients
   \<and> response_code (calloc_conv\<lparr>hit := 2, type := RESPONSE_ERROR\<rparr>) = 0
   \<and> type (calloc_conv\<lparr>hit := 2, type := RESPONSE_ERROR\<rparr>) = 42
   \<and> RESPONSE_ERROR = 42"
  by (simp add: conversation_new_def two_clients_def FD_SETSIZE_def calloc_conv_def RESPONSE_ERROR_def)

lemma conversation_clear_twice:
  "conversation_clear (conversation_clear ws fd) fd = conversation_clear ws fd"
  by (simp add: conversation_clear_def split: option.splits)

lemma conversation_clear_empty: "conversation ws fd = None \<Longrightarrow> conversation_clear ws fd = ws"
  by (simp add: conversation_clear_def)

lemma conversation_clear_slot:
  "0 < fd \<Longrightarrow> fd < int FD_SETSIZE \<Longrightarrow> conversation (conversation_clear ws fd) fd = None"
  by (simp add: conversation_clear_def split: option.splits)

lemma conversation_new_slot:
  "0 \<le> fd \<Longrightarrow> fd < int FD_SETSIZE \<Longrightarrow>
   conversation (conversation_new ws fd) fd = Some (calloc_conv\<lparr>hit := hits ws, type := RESPONSE_ERROR\<rparr>)"
  by (simp add: conversation_new_def)

lemma conversation_new_out_of_bounds:
  "fd < 0 \<or> int FD_SETSIZE \<le> fd \<Longrightarrow> conversation_new ws fd = ws"
  by (auto simp: conversation_new_def)

end
